theory Spec2Isabelle
  imports Main "HOL-Library.AList"
begin

section \<open>The Celery dispatch loop of \<^verbatim>\<open>core_execution_loop_copy.py\<close>\<close>

text \<open>
  The module drives an execution plan through a distributed task queue. Its collaborators
  (the active-execution tracker, the pending-result handles, the submission function) belong
  to libraries outside the module; they are taken as parameters, gathered in the record
  \<open>env\<close>, acting on an abstract world of type \<open>'w\<close>. The loop's own data (the flag
  \<open>stopping\<close>, the dictionaries \<open>step_results\<close> and \<open>step_errors\<close>) is a record that
  is passed along; a raise is the \<open>Inl\<close> branch of a sum. The events the generator yields
  and the calls it makes on its collaborators are appended to a trace.
\<close>

subsection \<open>Data\<close>

type_synonym step_key = string

text \<open>A pending-result handle (\<^verbatim>\<open>celery.AsyncResult\<close>) is an opaque token.\<close>

type_synonym handle = nat

text \<open>
  Exceptions of class \<^verbatim>\<open>Exception\<close>: the revocation error, the \<^verbatim>\<open>ValueError\<close> of
  \<^verbatim>\<open>int()\<close> (carrying the rejected text) and any other exception (carrying its description).
  Signals outside \<^verbatim>\<open>Exception\<close> (\<^verbatim>\<open>KeyboardInterrupt\<close>, \<^verbatim>\<open>GeneratorExit\<close>) are not modelled.
\<close>

datatype exn = TaskRevokedError | ValueError string | OtherException string

text \<open>\<^verbatim>\<open>serializable_error_info_from_exc_info(sys.exc_info())\<close> wraps the exception being handled.\<close>

datatype error_info = SerializableErrorInfo exn

text \<open>What the whole generator ends with: the exception that left the loop, or the aggregate.\<close>

datatype raised = Propagated exn | DagsterSubprocessError string "error_info list"

record step =
  key :: step_key
  tags :: "(string \<times> string) list"

record run_context =
  run_tags :: "(string \<times> string) list"

datatype engine_event_data =
    Interrupted "step_key list"
  | MarkerStart string
  | MarkerEnd string
  | EngineError error_info

text \<open>
  An engine event carries the step of its context (\<open>None\<close> for the run's own context,
  \<open>Some k\<close> for \<^verbatim>\<open>pipeline_context.for_step(step)\<close>), its message and its data. A worker event
  is what \<^verbatim>\<open>deserialize_json_to_dagster_namedtuple\<close> makes of one serialized entry of a
  fetched result; a plan event comes from the tracker's \<^verbatim>\<open>plan_events_iterator\<close>.
\<close>

datatype event =
    EngineEvent "step_key option" string engine_event_data
  | WorkerEvent string
  | PlanEvent string

text \<open>
  The trace: events yielded to the caller and calls made on the collaborators, in order.
  A fetch and a submission are logged with what they returned or raised.
\<close>

datatype action =
    Yield event
  | CheckForInterrupts bool
  | MarkInterrupted
  | Revoke handle
  | Get step_key handle "exn + string list"
  | HandleEvent event
  | VerifyComplete step_key
  | Submit step string int "exn + handle"
  | Sleep nat

subsection \<open>Constants of the module\<close>

definition DAGSTER_CELERY_STEP_PRIORITY_TAG :: string where
  "DAGSTER_CELERY_STEP_PRIORITY_TAG = ''dagster-celery/priority''"

definition DAGSTER_CELERY_RUN_PRIORITY_TAG :: string where
  "DAGSTER_CELERY_RUN_PRIORITY_TAG = ''dagster-celery/run_priority''"

definition DAGSTER_CELERY_QUEUE_TAG :: string where
  "DAGSTER_CELERY_QUEUE_TAG = ''dagster-celery/queue''"

definition TICK_SECONDS :: nat where
  "TICK_SECONDS = 1"

definition DELEGATE_MARKER :: string where
  "DELEGATE_MARKER = ''celery_queue_wait''"

text \<open>
  \<^verbatim>\<open>task_default_priority\<close> and \<^verbatim>\<open>task_default_queue\<close> are imported from
  \<^verbatim>\<open>celery_instance.dagster_celery_config\<close>, which is not part of the sources at hand:
  they are parameters.
\<close>

record config =
  task_default_priority :: int
  task_default_queue :: string

subsection \<open>Python's \<^verbatim>\<open>int()\<close> on a string\<close>

text \<open>
  \<^verbatim>\<open>int(s)\<close> in base 10, for a text whose characters are code points below 256. Whitespace
  around the number is dropped: the ASCII characters 9 to 13 and 32, and the two spaces beyond
  ASCII in that range, U+0085 and U+00A0 (the separators 28 to 31 are not skipped). One sign
  may come first, then decimal digits, where single underscores may stand between digits.
  A number of more than \<open>int_max_str_digits\<close> digits is refused. Anything else raises
  \<^verbatim>\<open>ValueError\<close> as well.
\<close>

definition is_space :: "char \<Rightarrow> bool" where
  "is_space c =
     (let n = (of_char c :: nat) in (9 \<le> n \<and> n \<le> 13) \<or> n = 32 \<or> n = 133 \<or> n = 160)"

text \<open>The interpreter's default limit on the digits of a converted text.\<close>

definition int_max_str_digits :: nat where
  "int_max_str_digits = 4300"

definition is_digit :: "char \<Rightarrow> bool" where
  "is_digit c = (let n = (of_char c :: nat) in 48 \<le> n \<and> n \<le> 57)"

definition digit_val :: "char \<Rightarrow> int" where
  "digit_val c = int (of_char c) - 48"

definition strip :: "string \<Rightarrow> string" where
  "strip s = rev (dropWhile is_space (rev (dropWhile is_space s)))"

fun parse_digits :: "int \<Rightarrow> string \<Rightarrow> int option" where
  "parse_digits acc [] = Some acc"
| "parse_digits acc [c] = (if is_digit c then Some (10 * acc + digit_val c) else None)"
| "parse_digits acc (c # d # cs) =
     (if is_digit c then parse_digits (10 * acc + digit_val c) (d # cs)
      else if c = CHR ''_'' \<and> is_digit d then parse_digits acc (d # cs)
      else None)"

definition parse_unsigned :: "string \<Rightarrow> int option" where
  "parse_unsigned s =
     (case s of
        [] \<Rightarrow> None
      | c # _ \<Rightarrow>
          if is_digit c \<and> length (filter is_digit s) \<le> int_max_str_digits
          then parse_digits 0 s else None)"

definition parse_int :: "string \<Rightarrow> int option" where
  "parse_int s =
     (case strip s of
        [] \<Rightarrow> None
      | c # cs \<Rightarrow>
          if c = CHR ''-'' then map_option uminus (parse_unsigned cs)
          else if c = CHR ''+'' then parse_unsigned cs
          else parse_unsigned (c # cs))"

definition py_int :: "string \<Rightarrow> exn + int" where
  "py_int s = (case parse_int s of None \<Rightarrow> Inl (ValueError s) | Some n \<Rightarrow> Inr n)"

subsection \<open>Priorities\<close>

text \<open>\<^verbatim>\<open>d.get(k, default)\<close> on a dictionary of strings.\<close>

definition tag_get :: "(string \<times> string) list \<Rightarrow> string \<Rightarrow> string option" where
  "tag_get d k = map_of d k"

text \<open>\<^verbatim>\<open>_get_run_priority\<close>: 0 without the tag, and 0 when \<^verbatim>\<open>int\<close> raises \<^verbatim>\<open>ValueError\<close>.\<close>

definition get_run_priority :: "run_context \<Rightarrow> exn + int" where
  "get_run_priority context =
     (case tag_get (run_tags context) DAGSTER_CELERY_RUN_PRIORITY_TAG of
        None \<Rightarrow> Inr 0
      | Some v \<Rightarrow>
          (case py_int v of
             Inl (ValueError _) \<Rightarrow> Inr 0
           | Inl e \<Rightarrow> Inl e
           | Inr n \<Rightarrow> Inr n))"

text \<open>
  \<^verbatim>\<open>int(step.tags.get(DAGSTER_CELERY_STEP_PRIORITY_TAG, task_default_priority))\<close>: the tag's
  text is converted, and may raise; the default is an integer already.
\<close>

definition step_tag_priority :: "config \<Rightarrow> step \<Rightarrow> exn + int" where
  "step_tag_priority cfg st =
     (case tag_get (tags st) DAGSTER_CELERY_STEP_PRIORITY_TAG of
        None \<Rightarrow> Inr (task_default_priority cfg)
      | Some v \<Rightarrow> py_int v)"

text \<open>\<^verbatim>\<open>_get_step_priority\<close>: the run's priority plus the step's.\<close>

definition get_step_priority :: "config \<Rightarrow> run_context \<Rightarrow> step \<Rightarrow> exn + int" where
  "get_step_priority cfg context st =
     (case get_run_priority context of
        Inl e \<Rightarrow> Inl e
      | Inr run_priority \<Rightarrow>
          (case step_tag_priority cfg st of
             Inl e \<Rightarrow> Inl e
           | Inr step_priority \<Rightarrow> Inr (run_priority + step_priority)))"

text \<open>
  The sort key \<^verbatim>\<open>priority_for_step\<close>. Python evaluates the left operand first: the step's
  tag is converted before the run's priority is read.
\<close>

definition priority_for_step :: "config \<Rightarrow> run_context \<Rightarrow> step \<Rightarrow> exn + int" where
  "priority_for_step cfg context st =
     (case step_tag_priority cfg st of
        Inl e \<Rightarrow> Inl e
      | Inr step_priority \<Rightarrow>
          (case get_run_priority context of
             Inl e \<Rightarrow> Inl e
           | Inr run_priority \<Rightarrow> Inr (-1 * step_priority + -1 * run_priority)))"

subsection \<open>Python's \<^verbatim>\<open>sorted(xs, key=f)\<close>\<close>

text \<open>
  The key of every element is computed first, in order, and the first raise leaves the
  call; the elements are then sorted by their keys, equal keys keeping their order.
\<close>

fun keyed :: "('a \<Rightarrow> exn + int) \<Rightarrow> 'a list \<Rightarrow> exn + (int \<times> 'a) list" where
  "keyed f [] = Inr []"
| "keyed f (x # xs) =
     (case f x of
        Inl e \<Rightarrow> Inl e
      | Inr k \<Rightarrow> (case keyed f xs of Inl e \<Rightarrow> Inl e | Inr kxs \<Rightarrow> Inr ((k, x) # kxs)))"

definition py_sorted :: "('a \<Rightarrow> exn + int) \<Rightarrow> 'a list \<Rightarrow> exn + 'a list" where
  "py_sorted f xs =
     (case keyed f xs of Inl e \<Rightarrow> Inl e | Inr kxs \<Rightarrow> Inr (map snd (sort_key fst kxs)))"

subsection \<open>The collaborators\<close>

text \<open>
  What the loop calls and does not define. Every operation that can change the tracker or
  the remote queue returns the new world. \<open>get_steps_to_execute\<close> receives the sort key
  that \<^verbatim>\<open>execution_plan.start(sort_key_fn=priority_for_step)\<close> hands to the tracker, and
  \<open>step_execution_fn\<close> reads the tracker's known state from the world it is given.
  \<open>exit_active_execution\<close> is the end of the \<^verbatim>\<open>with\<close> block when its body raised nothing.
  \<open>get_step_by_key\<close> stands for the lookup of the plan, which the tracker's lookup of the same
  name passes on to.
\<close>

record 'w env =
  is_complete :: "'w \<Rightarrow> bool"
  check_for_interrupts :: "'w \<Rightarrow> bool \<times> 'w"
  mark_interrupted :: "'w \<Rightarrow> 'w"
  get_step_by_key :: "step_key \<Rightarrow> exn + step"
  revoke :: "handle \<Rightarrow> 'w \<Rightarrow> 'w"
  ready :: "handle \<Rightarrow> 'w \<Rightarrow> bool \<times> 'w"
  get :: "handle \<Rightarrow> 'w \<Rightarrow> (exn + string list) \<times> 'w"
  handle_event :: "event \<Rightarrow> 'w \<Rightarrow> 'w"
  verify_complete :: "step_key \<Rightarrow> 'w \<Rightarrow> (exn + unit) \<times> 'w"
  plan_events_iterator :: "'w \<Rightarrow> event list \<times> 'w"
  get_steps_to_execute :: "(step \<Rightarrow> exn + int) \<Rightarrow> 'w \<Rightarrow> (exn + step list) \<times> 'w"
  step_execution_fn :: "step \<Rightarrow> string \<Rightarrow> int \<Rightarrow> 'w \<Rightarrow> (exn + handle) \<times> 'w"
  sleep :: "nat \<Rightarrow> 'w \<Rightarrow> 'w"
  to_string :: "error_info \<Rightarrow> string"
  exit_active_execution :: "'w \<Rightarrow> exn option"

subsection \<open>The loop's state\<close>

text \<open>
  The two dictionaries keep insertion order, as Python's do: \<open>AList.update\<close> replaces the
  value of a key in place or appends the pair, \<open>AList.delete\<close> removes the key.
\<close>

record 'w loop_state =
  stopping :: bool
  step_results :: "(step_key \<times> handle) list"
  step_errors :: "(step_key \<times> error_info) list"
  world :: 'w
  trace :: "action list"

definition log :: "action list \<Rightarrow> 'w loop_state \<Rightarrow> 'w loop_state" where
  "log as s = s\<lparr>trace := trace s @ as\<rparr>"

definition quoted :: "string \<Rightarrow> string" where
  "quoted s = [CHR 0x22] @ s @ [CHR 0x22]"

definition priority_for_key :: "'w env \<Rightarrow> config \<Rightarrow> run_context \<Rightarrow> step_key \<Rightarrow> exn + int" where
  "priority_for_key env cfg context step_key =
     (case get_step_by_key env step_key of
        Inl e \<Rightarrow> Inl e
      | Inr st \<Rightarrow> priority_for_step cfg context st)"

subsection \<open>Interrupts\<close>

definition interrupt_event :: "step_key list \<Rightarrow> event" where
  "interrupt_event keys =
     EngineEvent None
       ''Celery executor: received termination signal - revoking active tasks from workers''
       (Interrupted keys)"

fun revoke_all :: "'w env \<Rightarrow> handle list \<Rightarrow> 'w loop_state \<Rightarrow> 'w loop_state" where
  "revoke_all env [] s = s"
| "revoke_all env (result # results) s =
     revoke_all env results (log [Revoke result] (s\<lparr>world := revoke env result (world s)\<rparr>))"

definition interrupt_phase :: "'w env \<Rightarrow> 'w loop_state \<Rightarrow> 'w loop_state" where
  "interrupt_phase env s =
     (case check_for_interrupts env (world s) of
        (interrupted, w1) \<Rightarrow>
          let s1 = log [CheckForInterrupts interrupted] (s\<lparr>world := w1\<rparr>) in
          if interrupted then
            let s2 = log [Yield (interrupt_event (map fst (step_results s1)))] s1;
                s3 = s2\<lparr>stopping := True\<rparr>;
                s4 = log [MarkInterrupted] (s3\<lparr>world := mark_interrupted env (world s3)\<rparr>)
            in revoke_all env (map snd (step_results s4)) s4
          else s1)"

subsection \<open>Scanning the outstanding handles\<close>

fun feed_events :: "'w env \<Rightarrow> string list \<Rightarrow> 'w loop_state \<Rightarrow> 'w loop_state" where
  "feed_events env [] s = s"
| "feed_events env (step_event # step_events) s =
     (let event = WorkerEvent step_event;
          s1 = log [Yield event] s;
          s2 = log [HandleEvent event] (s1\<lparr>world := handle_event env event (world s1)\<rparr>)
      in feed_events env step_events s2)"

definition revoked_event :: "step \<Rightarrow> step_key \<Rightarrow> event" where
  "revoked_event st step_key =
     EngineEvent (Some (key st))
       (''celery task for running step '' @ quoted step_key @ '' was revoked.'')
       (MarkerEnd DELEGATE_MARKER)"

text \<open>The body of \<^verbatim>\<open>if result.ready():\<close> up to the loop over the fetched events.\<close>

definition fetch_result ::
  "'w env \<Rightarrow> step_key \<Rightarrow> handle \<Rightarrow> 'w loop_state \<Rightarrow> (exn + unit) \<times> 'w loop_state" where
  "fetch_result env step_key result s =
     (case get env result (world s) of
        (r, w1) \<Rightarrow>
          let s1 = log [Get step_key result r] (s\<lparr>world := w1\<rparr>) in
          (case r of
             Inr step_events \<Rightarrow> (Inr (), feed_events env step_events s1)
           | Inl TaskRevokedError \<Rightarrow>
               (case get_step_by_key env step_key of
                  Inl e \<Rightarrow> (Inl e, s1)
                | Inr st \<Rightarrow>
                    (Inr (), log [Yield (revoked_event st step_key)] s1))
           | Inl e \<Rightarrow>
               (Inr (), s1\<lparr>step_errors :=
                  AList.update step_key (SerializableErrorInfo e) (step_errors s1)\<rparr>)))"

text \<open>The loop over the sorted items; \<open>results_to_pop\<close> collects the keys that were ready.\<close>

fun scan ::
  "'w env \<Rightarrow> (step_key \<times> handle) list \<Rightarrow> step_key list \<Rightarrow> 'w loop_state
     \<Rightarrow> (exn + step_key list) \<times> 'w loop_state" where
  "scan env [] results_to_pop s = (Inr results_to_pop, s)"
| "scan env ((step_key, result) # items) results_to_pop s =
     (case ready env result (world s) of
        (is_ready, w1) \<Rightarrow>
          if is_ready then
            (case fetch_result env step_key result (s\<lparr>world := w1\<rparr>) of
               (Inl e, s1) \<Rightarrow> (Inl e, s1)
             | (Inr u, s1) \<Rightarrow> scan env items (results_to_pop @ [step_key]) s1)
          else scan env items results_to_pop (s\<lparr>world := w1\<rparr>))"

fun pop_results ::
  "'w env \<Rightarrow> step_key list \<Rightarrow> 'w loop_state \<Rightarrow> (exn + unit) \<times> 'w loop_state" where
  "pop_results env [] s = (Inr (), s)"
| "pop_results env (step_key # ks) s =
     (if step_key \<in> set (map fst (step_results s)) then
        (let s1 = s\<lparr>step_results := AList.delete step_key (step_results s)\<rparr> in
         case verify_complete env step_key (world s1) of
           (r, w1) \<Rightarrow>
             let s2 = log [VerifyComplete step_key] (s1\<lparr>world := w1\<rparr>) in
             (case r of Inl e \<Rightarrow> (Inl e, s2) | Inr u \<Rightarrow> pop_results env ks s2))
      else pop_results env ks s)"

text \<open>
  The first half of an iteration: interrupts, the scan in priority order, the removal of the
  settled handles, and the tracker's plan events.
\<close>

definition poll ::
  "'w env \<Rightarrow> config \<Rightarrow> run_context \<Rightarrow> 'w loop_state \<Rightarrow> (exn + unit) \<times> 'w loop_state" where
  "poll env cfg context s =
     (let s1 = interrupt_phase env s in
      case py_sorted (\<lambda>x. priority_for_key env cfg context (fst x)) (step_results s1) of
        Inl e \<Rightarrow> (Inl e, s1)
      | Inr items \<Rightarrow>
          (case scan env items [] s1 of
             (Inl e, s2) \<Rightarrow> (Inl e, s2)
           | (Inr results_to_pop, s2) \<Rightarrow>
               (case pop_results env results_to_pop s2 of
                  (Inl e, s3) \<Rightarrow> (Inl e, s3)
                | (Inr u, s3) \<Rightarrow>
                    (case plan_events_iterator env (world s3) of
                       (events, w4) \<Rightarrow> (Inr (), log (map Yield events) (s3\<lparr>world := w4\<rparr>))))))"

subsection \<open>Submission\<close>

text \<open>\<^verbatim>\<open>step.tags.get(DAGSTER_CELERY_QUEUE_TAG, task_default_queue)\<close>\<close>

definition step_queue :: "config \<Rightarrow> step \<Rightarrow> string" where
  "step_queue cfg st =
     (case tag_get (tags st) DAGSTER_CELERY_QUEUE_TAG of
        None \<Rightarrow> task_default_queue cfg
      | Some q \<Rightarrow> q)"

definition submitting_event :: "step \<Rightarrow> string \<Rightarrow> event" where
  "submitting_event st queue =
     EngineEvent (Some (key st))
       (''Submitting celery task for step '' @ quoted (key st) @ '' to queue ''
          @ quoted queue @ ''.'')
       (MarkerStart DELEGATE_MARKER)"

definition submission_error_event :: "exn \<Rightarrow> event" where
  "submission_error_event e =
     EngineEvent None ''Encountered error during celery task submission.''
       (EngineError (SerializableErrorInfo e))"

text \<open>The body of the \<^verbatim>\<open>try\<close>.\<close>

definition try_submit ::
  "'w env \<Rightarrow> config \<Rightarrow> run_context \<Rightarrow> step \<Rightarrow> 'w loop_state \<Rightarrow> (exn + unit) \<times> 'w loop_state" where
  "try_submit env cfg context st s =
     (let queue = step_queue cfg st;
          s1 = log [Yield (submitting_event st queue)] s
      in case get_step_priority cfg context st of
           Inl e \<Rightarrow> (Inl e, s1)
         | Inr priority \<Rightarrow>
             (case step_execution_fn env st queue priority (world s1) of
                (r, w2) \<Rightarrow>
                  let s2 = log [Submit st queue priority r] (s1\<lparr>world := w2\<rparr>) in
                  (case r of
                     Inl e \<Rightarrow> (Inl e, s2)
                   | Inr result \<Rightarrow>
                       (Inr (), s2\<lparr>step_results :=
                          AList.update (key st) result (step_results s2)\<rparr>))))"

text \<open>The \<^verbatim>\<open>try\<close> with its \<^verbatim>\<open>except Exception\<close>: the event, then the bare \<^verbatim>\<open>raise\<close>.\<close>

definition submit_step ::
  "'w env \<Rightarrow> config \<Rightarrow> run_context \<Rightarrow> step \<Rightarrow> 'w loop_state \<Rightarrow> (exn + unit) \<times> 'w loop_state" where
  "submit_step env cfg context st s =
     (case try_submit env cfg context st s of
        (Inl e, s1) \<Rightarrow>
          (Inl e, log [Yield (submission_error_event e)] s1)
      | (Inr u, s1) \<Rightarrow> (Inr (), s1))"

fun submit_steps ::
  "'w env \<Rightarrow> config \<Rightarrow> run_context \<Rightarrow> step list \<Rightarrow> 'w loop_state
     \<Rightarrow> (exn + unit) \<times> 'w loop_state" where
  "submit_steps env cfg context [] s = (Inr (), s)"
| "submit_steps env cfg context (st # steps) s =
     (case submit_step env cfg context st s of
        (Inl e, s1) \<Rightarrow> (Inl e, s1)
      | (Inr u, s1) \<Rightarrow> submit_steps env cfg context steps s1)"

text \<open>The second half of an iteration, reached when it was not left by \<^verbatim>\<open>continue\<close>.\<close>

definition submit_phase ::
  "'w env \<Rightarrow> config \<Rightarrow> run_context \<Rightarrow> 'w loop_state \<Rightarrow> (exn + unit) \<times> 'w loop_state" where
  "submit_phase env cfg context s =
     (case get_steps_to_execute env (priority_for_step cfg context) (world s) of
        (Inl e, w1) \<Rightarrow> (Inl e, s\<lparr>world := w1\<rparr>)
      | (Inr steps, w1) \<Rightarrow>
          (case submit_steps env cfg context steps (s\<lparr>world := w1\<rparr>) of
             (Inl e, s1) \<Rightarrow> (Inl e, s1)
           | (Inr u, s1) \<Rightarrow>
               (Inr (), log [Sleep TICK_SECONDS]
                  (s1\<lparr>world := sleep env TICK_SECONDS (world s1)\<rparr>))))"

subsection \<open>One iteration, the loop, the generator\<close>

definition tick ::
  "'w env \<Rightarrow> config \<Rightarrow> run_context \<Rightarrow> 'w loop_state \<Rightarrow> (exn + unit) \<times> 'w loop_state" where
  "tick env cfg context s =
     (case poll env cfg context s of
        (Inl e, s1) \<Rightarrow> (Inl e, s1)
      | (Inr u, s1) \<Rightarrow>
          if stopping s1 \<or> step_errors s1 \<noteq> [] then (Inr (), s1)
          else submit_phase env cfg context s1)"

text \<open>The condition of the \<^verbatim>\<open>while\<close>.\<close>

definition loop_condition :: "'w env \<Rightarrow> 'w loop_state \<Rightarrow> bool" where
  "loop_condition env s =
     ((\<not> is_complete env (world s) \<and> \<not> stopping s) \<or> step_results s \<noteq> [])"

text \<open>
  The loop may go on for ever (a handle that never gets ready), so it runs on fuel: one
  unit for each evaluation of the condition, \<open>None\<close> when the fuel is spent.
\<close>

fun loop ::
  "nat \<Rightarrow> 'w env \<Rightarrow> config \<Rightarrow> run_context \<Rightarrow> 'w loop_state
     \<Rightarrow> ((exn + unit) \<times> 'w loop_state) option" where
  "loop 0 env cfg context s = None"
| "loop (Suc n) env cfg context s =
     (if loop_condition env s then
        (case tick env cfg context s of
           (Inl e, s1) \<Rightarrow> Some (Inl e, s1)
         | (Inr u, s1) \<Rightarrow> loop n env cfg context s1)
      else Some (Inr (), s))"

fun join :: "string \<Rightarrow> string list \<Rightarrow> string" where
  "join sep [] = []"
| "join sep [x] = x"
| "join sep (x # y # ys) = x @ sep @ join sep (y # ys)"

definition error_list :: "'w env \<Rightarrow> (step_key \<times> error_info) list \<Rightarrow> string" where
  "error_list env errs =
     join [CHR 0x0A] (map (\<lambda>x. ''['' @ fst x @ '']: '' @ to_string env (snd x)) errs)"

text \<open>What follows the loop: the aggregate when \<open>step_errors\<close> is not empty.\<close>

definition finish :: "'w env \<Rightarrow> 'w loop_state \<Rightarrow> raised option" where
  "finish env s =
     (if step_errors s \<noteq> [] then
        Some (DagsterSubprocessError
          (''During celery execution errors occurred in workers:'' @ [CHR 0x0A]
             @ error_list env (step_errors s))
          (map snd (step_errors s)))
      else map_option Propagated (exit_active_execution env (world s)))"

definition initial :: "'w \<Rightarrow> 'w loop_state" where
  "initial w = \<lparr>stopping = False, step_results = [], step_errors = [], world = w, trace = []\<rparr>"

text \<open>
  The generator from the \<^verbatim>\<open>with\<close> block on (the parameter checks, the making of the Celery
  application and the warning about misused priority tags come before it and are left out):
  \<open>None\<close> when the fuel is spent, else what was raised, if anything, and the final state.
\<close>

definition core_celery_execution_loop ::
  "nat \<Rightarrow> 'w env \<Rightarrow> config \<Rightarrow> run_context \<Rightarrow> 'w \<Rightarrow> (raised option \<times> 'w loop_state) option" where
  "core_celery_execution_loop fuel env cfg context w =
     (case loop fuel env cfg context (initial w) of
        None \<Rightarrow> None
      | Some (Inl e, s) \<Rightarrow> Some (Some (Propagated e), s)
      | Some (Inr u, s) \<Rightarrow> Some (finish env s, s))"

subsection \<open>Reading the trace\<close>

text \<open>What one iteration appends to the trace.\<close>

definition tick_actions :: "'w env \<Rightarrow> config \<Rightarrow> run_context \<Rightarrow> 'w loop_state \<Rightarrow> action list" where
  "tick_actions env cfg context s = drop (length (trace s)) (trace (snd (tick env cfg context s)))"

text \<open>
  The submissions (the step and the priority \<^verbatim>\<open>step_execution_fn\<close> was called with), the
  revoke calls and the sleeps of a trace, in order.
\<close>

fun submissions :: "action list \<Rightarrow> (step \<times> int) list" where
  "submissions [] = []"
| "submissions (Submit st q p r # as) = (st, p) # submissions as"
| "submissions (a # as) = submissions as"

fun revocations :: "action list \<Rightarrow> handle list" where
  "revocations [] = []"
| "revocations (Revoke h # as) = h # revocations as"
| "revocations (a # as) = revocations as"

fun sleeps :: "action list \<Rightarrow> nat list" where
  "sleeps [] = []"
| "sleeps (Sleep n # as) = n # sleeps as"
| "sleeps (a # as) = sleeps as"

text \<open>
  \<open>adds Q s s'\<close>: the trace of \<open>s'\<close> is the trace of \<open>s\<close> followed by actions that all
  satisfy \<open>Q\<close>. The predicates name the actions each part of an iteration can make.
\<close>

definition adds :: "(action \<Rightarrow> bool) \<Rightarrow> 'w loop_state \<Rightarrow> 'w loop_state \<Rightarrow> bool" where
  "adds Q s s' = (\<exists>new. trace s' = trace s @ new \<and> list_all Q new)"

fun interrupt_action :: "action \<Rightarrow> bool" where
  "interrupt_action (CheckForInterrupts b) = True"
| "interrupt_action (Yield e) = True"
| "interrupt_action MarkInterrupted = True"
| "interrupt_action (Revoke h) = True"
| "interrupt_action a = False"

fun settle_action :: "action \<Rightarrow> bool" where
  "settle_action (Get k h r) = True"
| "settle_action (Yield e) = True"
| "settle_action (HandleEvent e) = True"
| "settle_action (VerifyComplete k) = True"
| "settle_action a = False"

fun submit_action :: "action \<Rightarrow> bool" where
  "submit_action (Submit st q p r) = True"
| "submit_action (Yield e) = True"
| "submit_action a = False"

fun poll_action :: "action \<Rightarrow> bool" where
  "poll_action (Submit st q p r) = False"
| "poll_action (Sleep n) = False"
| "poll_action a = True"

text \<open>What an iteration can do after its interrupt check.\<close>

fun late_action :: "action \<Rightarrow> bool" where
  "late_action (Revoke h) = False"
| "late_action (CheckForInterrupts b) = False"
| "late_action MarkInterrupted = False"
| "late_action a = True"

text \<open>
  What a trace says about the fetches: the errors of the fetches that raised something other
  than \<^verbatim>\<open>TaskRevokedError\<close>, the events handed to the tracker, and the events of the fetches
  that returned. \<open>record_failures\<close> enters errors into a dictionary one after the other, and
  \<open>settles s s'\<close> says that \<open>s'\<close> continues the trace of \<open>s\<close>, has recorded the failed
  fetches made since and has handed over the events fetched since.
\<close>

fun failures :: "action list \<Rightarrow> (step_key \<times> error_info) list" where
  "failures [] = []"
| "failures (Get k h (Inl e) # as) =
     (if e = TaskRevokedError then failures as else (k, SerializableErrorInfo e) # failures as)"
| "failures (a # as) = failures as"

fun handled :: "action list \<Rightarrow> event list" where
  "handled [] = []"
| "handled (HandleEvent e # as) = e # handled as"
| "handled (a # as) = handled as"

fun fetched :: "action list \<Rightarrow> event list" where
  "fetched [] = []"
| "fetched (Get k h (Inr step_events) # as) = map WorkerEvent step_events @ fetched as"
| "fetched (a # as) = fetched as"

definition record_failures ::
  "(step_key \<times> error_info) list \<Rightarrow> (step_key \<times> error_info) list
     \<Rightarrow> (step_key \<times> error_info) list" where
  "record_failures fs errs = fold (\<lambda>x. AList.update (fst x) (snd x)) fs errs"

definition settles :: "'w loop_state \<Rightarrow> 'w loop_state \<Rightarrow> bool" where
  "settles s s' =
     (\<exists>new. trace s' = trace s @ new
        \<and> step_errors s' = record_failures (failures new) (step_errors s)
        \<and> handled new = fetched new)"

fun quiet_action :: "action \<Rightarrow> bool" where
  "quiet_action (Get k h r) = False"
| "quiet_action (HandleEvent e) = False"
| "quiet_action a = True"

subsection \<open>A simulated world for the examples\<close>

text \<open>
  The world is a counter of the interrupt checks made so far, one for each iteration. An
  interrupt is reported at the checks \<open>interrupts\<close> names, a handle is ready from the check
  \<open>ready_at\<close> gives, the tracker releases the steps \<open>plan\<close>, sorted by the key it was
  started with, at the first iteration and is complete from check \<open>complete_at\<close> on.
\<close>

definition sim_env ::
  "(nat \<Rightarrow> bool) \<Rightarrow> (handle \<Rightarrow> nat) \<Rightarrow> (handle \<Rightarrow> exn + string list)
     \<Rightarrow> (step \<Rightarrow> exn + handle) \<Rightarrow> step list \<Rightarrow> nat \<Rightarrow> nat env" where
  "sim_env interrupts ready_at outcome submit plan complete_at =
     \<lparr>is_complete = (\<lambda>w. complete_at \<le> w),
      check_for_interrupts = (\<lambda>w. (interrupts w, Suc w)),
      mark_interrupted = (\<lambda>w. w),
      get_step_by_key = (\<lambda>k. case find (\<lambda>st. key st = k) plan of
                                None \<Rightarrow> Inl (OtherException ''no such step'')
                              | Some st \<Rightarrow> Inr st),
      revoke = (\<lambda>h w. w),
      ready = (\<lambda>h w. (ready_at h \<le> w, w)),
      get = (\<lambda>h w. (outcome h, w)),
      handle_event = (\<lambda>e w. w),
      verify_complete = (\<lambda>k w. (Inr (), w)),
      plan_events_iterator = (\<lambda>w. ([], w)),
      get_steps_to_execute = (\<lambda>f w. (if w = 1 then py_sorted f plan else Inr [], w)),
      step_execution_fn = (\<lambda>st q p w. (submit st, w)),
      sleep = (\<lambda>n w. w),
      to_string = (\<lambda>i. case i of SerializableErrorInfo e \<Rightarrow>
                         (case e of TaskRevokedError \<Rightarrow> ''TaskRevokedError''
                          | ValueError m \<Rightarrow> ''ValueError: '' @ m
                          | OtherException m \<Rightarrow> m)),
      exit_active_execution = (\<lambda>w. None)\<rparr>"

definition tagged_step :: "step_key \<Rightarrow> string \<Rightarrow> step" where
  "tagged_step k p = \<lparr>key = k, tags = [(DAGSTER_CELERY_STEP_PRIORITY_TAG, p)]\<rparr>"

definition cfg0 :: config where
  "cfg0 = \<lparr>task_default_priority = 0, task_default_queue = ''dagster''\<rparr>"

definition no_tags :: run_context where
  "no_tags = \<lparr>run_tags = []\<rparr>"

text \<open>A draining loop with nothing outstanding, on a plan that never completes.\<close>

definition idle_env :: "nat env" where
  "idle_env = sim_env (\<lambda>w. False) (\<lambda>h. 0) (\<lambda>h. Inr []) (\<lambda>st. Inr 0) [] 100"

definition drained :: "nat loop_state" where
  "drained = \<lparr>stopping = True, step_results = [], step_errors = [], world = 1, trace = []\<rparr>"

text \<open>
  One step is ready at the first iteration, but the loop is already draining; or an error
  has been recorded already.
\<close>

definition one_step_env :: "nat env" where
  "one_step_env =
     sim_env (\<lambda>w. False) (\<lambda>h. 5) (\<lambda>h. Inr []) (\<lambda>st. Inr 7) [tagged_step ''a'' ''5''] 100"

definition draining_fresh :: "nat loop_state" where
  "draining_fresh =
     \<lparr>stopping = True, step_results = [], step_errors = [], world = 0, trace = []\<rparr>"

text \<open>
  A handle is outstanding and will not be ready soon, and the tracker reports an interrupt at
  every check.
\<close>

definition interrupted_env :: "nat env" where
  "interrupted_env =
     sim_env (\<lambda>w. True) (\<lambda>h. 100) (\<lambda>h. Inl TaskRevokedError) (\<lambda>st. Inr 7)
       [tagged_step ''a'' ''5''] 100"

definition in_flight :: "nat loop_state" where
  "in_flight =
     \<lparr>stopping = False, step_results = [(''a'', 7)], step_errors = [], world = 1, trace = []\<rparr>"

text \<open>
  Three steps are released and the submission of \<open>b\<close> raises; two steps whose fetches raise,
  on a plan that is complete at the third check; a tracker that releases a step whose priority
  tag is no integer, without sorting; three steps with the priorities 5, 1 and 10.
\<close>

definition failing_submit_env :: "nat env" where
  "failing_submit_env =
     sim_env (\<lambda>w. False) (\<lambda>h. 100) (\<lambda>h. Inr [])
       (\<lambda>st. if key st = ''b'' then Inl (OtherException ''broker unreachable'') else Inr 7)
       [tagged_step ''b'' ''3'', tagged_step ''c'' ''1'', tagged_step ''a'' ''5''] 100"

definition failing_fetch_env :: "nat env" where
  "failing_fetch_env =
     sim_env (\<lambda>w. False) (\<lambda>h. 2)
       (\<lambda>h. Inl (OtherException (if h = 1 then ''boom'' else ''bang'')))
       (\<lambda>st. Inr (if key st = ''a'' then 1 else 2))
       [tagged_step ''a'' ''5'', tagged_step ''b'' ''1''] 3"

definition unsorting_env :: "nat env" where
  "unsorting_env =
     (sim_env (\<lambda>w. False) (\<lambda>h. 100) (\<lambda>h. Inr []) (\<lambda>st. Inr 7) [] 100)
       \<lparr>get_steps_to_execute :=
          (\<lambda>f w. (if w = 1 then Inr [tagged_step ''a'' ''high''] else Inr [], w))\<rparr>"


text \<open>The second iteration on \<open>failing_fetch_env\<close>, after its interrupt check.\<close>

definition fetching :: "nat loop_state" where
  "fetching =
     \<lparr>stopping = False, step_results = [(''a'', 1), (''b'', 2)], step_errors = [], world = 2,
      trace =
        [CheckForInterrupts False,
         Yield (submitting_event (tagged_step ''a'' ''5'') ''dagster''),
         Submit (tagged_step ''a'' ''5'') ''dagster'' 5 (Inr 1),
         Yield (submitting_event (tagged_step ''b'' ''1'') ''dagster''),
         Submit (tagged_step ''b'' ''1'') ''dagster'' 1 (Inr 2),
         Sleep 1,
         CheckForInterrupts False]\<rparr>"

section \<open>Properties\<close>

subsection \<open>What each part of an iteration does to the state\<close>

lemma adds_refl: "adds Q s s"
  by (simp add: adds_def)

lemma adds_trans: "adds Q s s1 \<Longrightarrow> adds Q s1 s2 \<Longrightarrow> adds Q s s2"
  by (auto simp: adds_def)

lemma adds_mono: "adds Q s s' \<Longrightarrow> (\<And>a. Q a \<Longrightarrow> Q' a) \<Longrightarrow> adds Q' s s'"
  by (auto simp: adds_def list_all_iff)

lemma adds_log: "list_all Q as \<Longrightarrow> adds Q s (log as s)"
  by (simp add: adds_def log_def)

lemma adds_same_trace: "trace s' = trace s \<Longrightarrow> adds Q s s'"
  by (simp add: adds_def)

lemma adds_drop: "adds Q s s' \<Longrightarrow> list_all Q (drop (length (trace s)) (trace s'))"
  by (auto simp: adds_def)

lemma update_not_Nil: "AList.update k v xs \<noteq> []"
  by (cases xs) auto

lemma revoke_all_trace: "trace (revoke_all env hs s) = trace s @ map Revoke hs"
  by (induction hs arbitrary: s) (simp_all add: log_def)

lemma revoke_all_fields:
  "stopping (revoke_all env hs s) = stopping s"
  "step_errors (revoke_all env hs s) = step_errors s"
  "step_results (revoke_all env hs s) = step_results s"
  by (induction hs arbitrary: s) (simp_all add: log_def)

lemma interrupt_phase_trace:
  "trace (interrupt_phase env s) =
     trace s @ CheckForInterrupts (fst (check_for_interrupts env (world s)))
       # (if fst (check_for_interrupts env (world s)) then
            [Yield (interrupt_event (map fst (step_results s))), MarkInterrupted]
            @ map Revoke (map snd (step_results s))
          else [])"
  by (simp add: interrupt_phase_def Let_def log_def revoke_all_trace split: prod.splits)

lemma interrupt_phase_fields:
  "stopping (interrupt_phase env s) = (stopping s \<or> fst (check_for_interrupts env (world s)))"
  "step_errors (interrupt_phase env s) = step_errors s"
  "step_results (interrupt_phase env s) = step_results s"
  by (simp_all add: interrupt_phase_def Let_def log_def revoke_all_fields split: prod.splits)

lemma interrupt_phase_adds: "adds interrupt_action s (interrupt_phase env s)"
  by (simp add: adds_def interrupt_phase_trace list_all_iff) auto

lemma feed_events_adds: "adds settle_action s (feed_events env evs s)"
proof (induction evs arbitrary: s)
  case Nil
  show ?case by (simp add: adds_refl)
next
  case (Cons ev evs)
  have "adds settle_action s
     (log [HandleEvent (WorkerEvent ev)]
        ((log [Yield (WorkerEvent ev)] s)\<lparr>world := handle_event env (WorkerEvent ev) (world (log [Yield (WorkerEvent ev)] s))\<rparr>))"
    by (simp add: adds_def log_def)
  then show ?case
    using Cons.IH by (auto simp: Let_def intro: adds_trans)
qed

lemma feed_events_fields:
  "stopping (feed_events env evs s) = stopping s"
  "step_errors (feed_events env evs s) = step_errors s"
  "step_results (feed_events env evs s) = step_results s"
  by (induction evs arbitrary: s) (simp_all add: log_def Let_def)

lemma fetch_result_adds:
  assumes "fetch_result env k h s = (r, s')"
  shows "adds settle_action s s'"
proof -
  obtain g w1 where g: "get env h (world s) = (g, w1)"
    by (cases "get env h (world s)")
  define s1 where "s1 = log [Get k h g] (s\<lparr>world := w1\<rparr>)"
  have a1: "adds settle_action s s1"
    by (simp add: s1_def adds_def log_def)
  have "adds settle_action s1 s'"
  proof (cases g)
    case (Inr evs)
    then have "s' = feed_events env evs s1"
      using assms g by (simp add: fetch_result_def s1_def)
    then show ?thesis by (simp add: feed_events_adds)
  next
    case (Inl e)
    then show ?thesis
      using assms g
      by (auto simp: fetch_result_def s1_def Let_def adds_def log_def
            split: exn.splits sum.splits)
  qed
  with a1 show ?thesis by (rule adds_trans)
qed

lemma fetch_result_fields:
  assumes "fetch_result env k h s = (r, s')"
  shows "stopping s' = stopping s" and "step_results s' = step_results s"
    and "step_errors s \<noteq> [] \<Longrightarrow> step_errors s' \<noteq> []"
  using assms
  by (auto simp: fetch_result_def Let_def log_def feed_events_fields update_not_Nil
        split: prod.splits sum.splits exn.splits)

lemma scan_adds:
  "scan env items pop s = (r, s') \<Longrightarrow> adds settle_action s s'"
proof (induction items arbitrary: pop s)
  case Nil
  then show ?case by (simp add: adds_refl)
next
  case (Cons item items)
  obtain k h where item: "item = (k, h)" by (cases item)
  obtain b w1 where rd: "ready env h (world s) = (b, w1)" by (cases "ready env h (world s)")
  have a0: "adds settle_action s (s\<lparr>world := w1\<rparr>)" by (simp add: adds_same_trace)
  show ?case
  proof (cases b)
    case False
    then have "scan env items pop (s\<lparr>world := w1\<rparr>) = (r, s')"
      using Cons.prems item rd by simp
    from Cons.IH [OF this] a0 show ?thesis by (blast intro: adds_trans)
  next
    case True
    obtain fr s1 where f: "fetch_result env k h (s\<lparr>world := w1\<rparr>) = (fr, s1)"
      by (cases "fetch_result env k h (s\<lparr>world := w1\<rparr>)")
    have a1: "adds settle_action s s1"
      using a0 fetch_result_adds [OF f] by (rule adds_trans)
    show ?thesis
    proof (cases fr)
      case (Inl e)
      then have "s' = s1" using Cons.prems item rd True f by simp
      with a1 show ?thesis by simp
    next
      case (Inr u)
      then have "scan env items (pop @ [k]) s1 = (r, s')"
        using Cons.prems item rd True f by simp
      from Cons.IH [OF this] a1 show ?thesis by (blast intro: adds_trans)
    qed
  qed
qed

lemma scan_fields:
  "scan env items pop s = (r, s') \<Longrightarrow>
     stopping s' = stopping s \<and> step_results s' = step_results s
     \<and> (step_errors s \<noteq> [] \<longrightarrow> step_errors s' \<noteq> [])"
proof (induction items arbitrary: pop s)
  case Nil
  then show ?case by simp
next
  case (Cons item items)
  obtain k h where item: "item = (k, h)" by (cases item)
  obtain b w1 where rd: "ready env h (world s) = (b, w1)" by (cases "ready env h (world s)")
  show ?case
  proof (cases b)
    case False
    then have "scan env items pop (s\<lparr>world := w1\<rparr>) = (r, s')"
      using Cons.prems item rd by simp
    from Cons.IH [OF this] show ?thesis by simp
  next
    case True
    obtain fr s1 where f: "fetch_result env k h (s\<lparr>world := w1\<rparr>) = (fr, s1)"
      by (cases "fetch_result env k h (s\<lparr>world := w1\<rparr>)")
    note ff = fetch_result_fields [OF f]
    show ?thesis
    proof (cases fr)
      case (Inl e)
      then have "s' = s1" using Cons.prems item rd True f by simp
      with ff show ?thesis by simp
    next
      case (Inr u)
      then have "scan env items (pop @ [k]) s1 = (r, s')"
        using Cons.prems item rd True f by simp
      from Cons.IH [OF this] ff show ?thesis by simp
    qed
  qed
qed

lemma pop_results_adds:
  "pop_results env ks s = (r, s') \<Longrightarrow> adds settle_action s s'"
proof (induction ks arbitrary: s)
  case Nil
  then show ?case by (simp add: adds_refl)
next
  case (Cons k ks)
  show ?case
  proof (cases "k \<in> set (map fst (step_results s))")
    case False
    then show ?thesis using Cons by simp
  next
    case True
    obtain v w1 where v: "verify_complete env k (world s) = (v, w1)"
      by (cases "verify_complete env k (world s)")
    define s2 where
      "s2 = log [VerifyComplete k] (s\<lparr>step_results := AList.delete k (step_results s), world := w1\<rparr>)"
    have a: "adds settle_action s s2" by (simp add: s2_def adds_def log_def)
    show ?thesis
    proof (cases v)
      case (Inl e)
      then have "s' = s2" using Cons.prems True v by (simp add: s2_def Let_def)
      with a show ?thesis by simp
    next
      case (Inr u)
      then have "pop_results env ks s2 = (r, s')"
        using Cons.prems True v by (simp add: s2_def Let_def)
      from Cons.IH [OF this] a show ?thesis by (blast intro: adds_trans)
    qed
  qed
qed

lemma pop_results_fields:
  "pop_results env ks s = (r, s') \<Longrightarrow>
     stopping s' = stopping s \<and> step_errors s' = step_errors s"
proof (induction ks arbitrary: s)
  case Nil
  then show ?case by simp
next
  case (Cons k ks)
  show ?case
  proof (cases "k \<in> set (map fst (step_results s))")
    case False
    then show ?thesis using Cons by simp
  next
    case True
    obtain v w1 where v: "verify_complete env k (world s) = (v, w1)"
      by (cases "verify_complete env k (world s)")
    define s2 where
      "s2 = log [VerifyComplete k] (s\<lparr>step_results := AList.delete k (step_results s), world := w1\<rparr>)"
    have a: "stopping s2 = stopping s" "step_errors s2 = step_errors s"
      by (simp_all add: s2_def log_def)
    show ?thesis
    proof (cases v)
      case (Inl e)
      then have "s' = s2" using Cons.prems True v by (simp add: s2_def Let_def)
      with a show ?thesis by simp
    next
      case (Inr u)
      then have "pop_results env ks s2 = (r, s')"
        using Cons.prems True v by (simp add: s2_def Let_def)
      from Cons.IH [OF this] a show ?thesis by simp
    qed
  qed
qed

lemma interrupt_poll_action: "interrupt_action a \<Longrightarrow> poll_action a"
  by (cases a) simp_all

lemma settle_poll_action: "settle_action a \<Longrightarrow> poll_action a"
  by (cases a) simp_all

lemma adds_yields: "adds settle_action s (log (map Yield evs) (s\<lparr>world := w\<rparr>))"
  by (auto simp: adds_def log_def list_all_iff)

lemma poll_cases:
  assumes "poll env cfg context s = (r, s')"
  obtains (sort_raise) e where
      "py_sorted (\<lambda>x. priority_for_key env cfg context (fst x)) (step_results s) = Inl e"
      "r = Inl e" "s' = interrupt_phase env s"
  | (scan_raise) items e where
      "py_sorted (\<lambda>x. priority_for_key env cfg context (fst x)) (step_results s) = Inr items"
      "scan env items [] (interrupt_phase env s) = (Inl e, s')" "r = Inl e"
  | (pop_raise) items ks s2 e where
      "py_sorted (\<lambda>x. priority_for_key env cfg context (fst x)) (step_results s) = Inr items"
      "scan env items [] (interrupt_phase env s) = (Inr ks, s2)"
      "pop_results env ks s2 = (Inl e, s')" "r = Inl e"
  | (ok) items ks s2 s3 where
      "py_sorted (\<lambda>x. priority_for_key env cfg context (fst x)) (step_results s) = Inr items"
      "scan env items [] (interrupt_phase env s) = (Inr ks, s2)"
      "pop_results env ks s2 = (Inr (), s3)" "r = Inr ()"
      "s' = log (map Yield (fst (plan_events_iterator env (world s3))))
              (s3\<lparr>world := snd (plan_events_iterator env (world s3))\<rparr>)"
proof -
  let ?s1 = "interrupt_phase env s"
  let ?key = "\<lambda>x. priority_for_key env cfg context (fst x)"
  have sr: "step_results ?s1 = step_results s"
    by (rule interrupt_phase_fields)
  show thesis
  proof (cases "py_sorted ?key (step_results s)")
    case (Inl e)
    with assms sr have "r = Inl e" "s' = ?s1"
      by (simp_all add: poll_def Let_def)
    with Inl show thesis by (rule sort_raise)
  next
    case (Inr items)
    obtain sc s2 where sc: "scan env items [] ?s1 = (sc, s2)"
      by (cases "scan env items [] ?s1")
    show thesis
    proof (cases sc)
      case (Inl e)
      with assms sr Inr sc have "r = Inl e" "s' = s2"
        by (simp_all add: poll_def Let_def)
      with Inr sc Inl show thesis by (auto intro: scan_raise)
    next
      case ks: (Inr ks)
      obtain pr s3 where pr: "pop_results env ks s2 = (pr, s3)"
        by (cases "pop_results env ks s2")
      show thesis
      proof (cases pr)
        case (Inl e)
        with assms sr Inr sc ks pr have "r = Inl e" "s' = s3"
          by (simp_all add: poll_def Let_def)
        with Inr sc ks pr Inl show thesis by (auto intro: pop_raise)
      next
        case u: (Inr u)
        with assms sr Inr sc ks pr have "r = Inr ()"
          "s' = log (map Yield (fst (plan_events_iterator env (world s3))))
                  (s3\<lparr>world := snd (plan_events_iterator env (world s3))\<rparr>)"
          by (simp_all add: poll_def Let_def split: prod.splits)
        with Inr sc ks pr u show thesis by (auto intro: ok)
      qed
    qed
  qed
qed

lemma poll_adds:
  assumes "poll env cfg context s = (r, s')"
  shows "adds poll_action s s'"
proof -
  have a1: "adds poll_action s (interrupt_phase env s)"
    by (rule adds_mono [OF interrupt_phase_adds interrupt_poll_action])
  have "adds settle_action (interrupt_phase env s) s'"
    using assms
  proof (cases rule: poll_cases)
    case (sort_raise e)
    then show ?thesis by (simp add: adds_refl)
  next
    case (scan_raise items e)
    then show ?thesis by (blast dest: scan_adds)
  next
    case (pop_raise items ks s2 e)
    then show ?thesis by (blast dest: scan_adds pop_results_adds intro: adds_trans)
  next
    case (ok items ks s2 s3)
    have "adds settle_action s3 s'"
      unfolding ok by (rule adds_yields)
    with ok show ?thesis by (blast dest: scan_adds pop_results_adds intro: adds_trans)
  qed
  then have "adds poll_action (interrupt_phase env s) s'"
    by (rule adds_mono) (rule settle_poll_action)
  with a1 show ?thesis by (rule adds_trans)
qed

lemma poll_fields:
  assumes "poll env cfg context s = (r, s')"
  shows "stopping s' = (stopping s \<or> fst (check_for_interrupts env (world s)))
         \<and> (step_errors s \<noteq> [] \<longrightarrow> step_errors s' \<noteq> [])"
  using assms
proof (cases rule: poll_cases)
  case (sort_raise e)
  then show ?thesis by (simp add: interrupt_phase_fields)
next
  case (scan_raise items e)
  from scan_fields [OF scan_raise(2)] show ?thesis by (simp add: interrupt_phase_fields)
next
  case (pop_raise items ks s2 e)
  from scan_fields [OF pop_raise(2)] pop_results_fields [OF pop_raise(3)]
  show ?thesis by (simp add: interrupt_phase_fields)
next
  case (ok items ks s2 s3)
  from scan_fields [OF ok(2)] pop_results_fields [OF ok(3)]
  show ?thesis by (simp add: ok(5) interrupt_phase_fields log_def)
qed

lemma submit_step_cases:
  assumes "submit_step env cfg context st s = (r, s')"
  obtains (priority_raise) e where
      "get_step_priority cfg context st = Inl e" "r = Inl e"
      "s' = log [Yield (submitting_event st (step_queue cfg st)), Yield (submission_error_event e)] s"
  | (submit_raise) p e w2 where
      "get_step_priority cfg context st = Inr p"
      "step_execution_fn env st (step_queue cfg st) p (world s) = (Inl e, w2)" "r = Inl e"
      "s' = log [Yield (submitting_event st (step_queue cfg st)),
                 Submit st (step_queue cfg st) p (Inl e),
                 Yield (submission_error_event e)] (s\<lparr>world := w2\<rparr>)"
  | (submitted) p h w2 where
      "get_step_priority cfg context st = Inr p"
      "step_execution_fn env st (step_queue cfg st) p (world s) = (Inr h, w2)" "r = Inr ()"
      "s' = (log [Yield (submitting_event st (step_queue cfg st)),
                  Submit st (step_queue cfg st) p (Inr h)] (s\<lparr>world := w2\<rparr>))
              \<lparr>step_results := AList.update (key st) h (step_results s)\<rparr>"
proof (cases "get_step_priority cfg context st")
  case (Inl e)
  with assms have "r = Inl e"
    "s' = log [Yield (submitting_event st (step_queue cfg st)), Yield (submission_error_event e)] s"
    by (simp_all add: submit_step_def try_submit_def Let_def log_def)
  with Inl show thesis by (rule priority_raise)
next
  case (Inr p)
  obtain x w2 where x: "step_execution_fn env st (step_queue cfg st) p (world s) = (x, w2)"
    by (cases "step_execution_fn env st (step_queue cfg st) p (world s)")
  show thesis
  proof (cases x)
    case (Inl e)
    with assms Inr x show thesis
      by (intro submit_raise [of p e w2])
         (simp_all add: submit_step_def try_submit_def Let_def log_def)
  next
    case h: (Inr h)
    with assms Inr x show thesis
      by (intro submitted [of p h w2])
         (simp_all add: submit_step_def try_submit_def Let_def log_def)
  qed
qed


lemma revocations_append: "revocations (as @ bs) = revocations as @ revocations bs"
  by (induction as rule: revocations.induct) simp_all

lemma sleeps_append: "sleeps (as @ bs) = sleeps as @ sleeps bs"
  by (induction as rule: sleeps.induct) simp_all

lemma poll_action_quiet: "list_all poll_action as \<Longrightarrow> submissions as = [] \<and> sleeps as = []"
  by (induction as rule: submissions.induct) simp_all

lemma submit_steps_fields:
  "submit_steps env cfg context steps s = (r, s') \<Longrightarrow>
     stopping s' = stopping s \<and> step_errors s' = step_errors s"
proof (induction steps arbitrary: s)
  case Nil
  then show ?case by simp
next
  case (Cons st steps)
  obtain x s1 where x: "submit_step env cfg context st s = (x, s1)"
    by (cases "submit_step env cfg context st s")
  from x have f: "stopping s1 = stopping s \<and> step_errors s1 = step_errors s"
    by (cases rule: submit_step_cases) (simp_all add: log_def)
  show ?case
  proof (cases x)
    case (Inl e)
    with Cons.prems x f show ?thesis by simp
  next
    case (Inr u)
    with Cons.prems x have "submit_steps env cfg context steps s1 = (r, s')" by simp
    from Cons.IH [OF this] f show ?thesis by simp
  qed
qed

lemma tick_skips:
  assumes "poll env cfg context s = (r, s1)" and "stopping s1 \<or> step_errors s1 \<noteq> [] \<or> r \<noteq> Inr ()"
  shows "tick env cfg context s = (r, s1)"
  using assms by (cases r) (auto simp: tick_def)

lemma tick_fields:
  assumes "poll env cfg context s = (r, s1)"
  shows "stopping (snd (tick env cfg context s)) = stopping s1"
    and "step_errors (snd (tick env cfg context s)) = step_errors s1"
proof -
  have "stopping (snd (tick env cfg context s)) = stopping s1
      \<and> step_errors (snd (tick env cfg context s)) = step_errors s1"
  proof (cases "stopping s1 \<or> step_errors s1 \<noteq> [] \<or> r \<noteq> Inr ()")
    case True
    with assms show ?thesis by (simp add: tick_skips)
  next
    case False
    then have t: "tick env cfg context s = submit_phase env cfg context s1"
      using assms by (simp add: tick_def)
    obtain g w1 where g: "get_steps_to_execute env (priority_for_step cfg context) (world s1) = (g, w1)"
      by (cases "get_steps_to_execute env (priority_for_step cfg context) (world s1)")
    show ?thesis
    proof (cases g)
      case (Inl e)
      with g t show ?thesis by (simp add: submit_phase_def)
    next
      case (Inr steps)
      obtain x s2 where x: "submit_steps env cfg context steps (s1\<lparr>world := w1\<rparr>) = (x, s2)"
        by (cases "submit_steps env cfg context steps (s1\<lparr>world := w1\<rparr>)")
      from submit_steps_fields [OF x] g t Inr x show ?thesis
        by (cases x) (simp_all add: submit_phase_def log_def)
    qed
  qed
  then show "stopping (snd (tick env cfg context s)) = stopping s1"
    and "step_errors (snd (tick env cfg context s)) = step_errors s1" by simp_all
qed

lemma settle_late_action: "settle_action a \<Longrightarrow> late_action a"
  by (cases a) simp_all

lemma submit_late_action: "submit_action a \<Longrightarrow> late_action a"
  by (cases a) simp_all

lemma late_action_quiet: "list_all late_action as \<Longrightarrow> revocations as = []"
  by (induction as rule: revocations.induct) simp_all

lemma revocations_map_Revoke: "revocations (map Revoke hs) = hs"
  by (induction hs) simp_all

lemma poll_adds_settle:
  assumes "poll env cfg context s = (r, s')"
  shows "adds settle_action (interrupt_phase env s) s'"
  using assms
proof (cases rule: poll_cases)
  case (sort_raise e)
  then show ?thesis by (simp add: adds_refl)
next
  case (scan_raise items e)
  then show ?thesis by (blast dest: scan_adds)
next
  case (pop_raise items ks s2 e)
  then show ?thesis by (blast dest: scan_adds pop_results_adds intro: adds_trans)
next
  case (ok items ks s2 s3)
  have "adds settle_action s3 s'"
    unfolding ok by (rule adds_yields)
  with ok show ?thesis by (blast dest: scan_adds pop_results_adds intro: adds_trans)
qed

lemma submit_steps_adds:
  "submit_steps env cfg context steps s = (r, s') \<Longrightarrow> adds submit_action s s'"
proof (induction steps arbitrary: s)
  case Nil
  then show ?case by (simp add: adds_refl)
next
  case (Cons st steps)
  obtain x s1 where x: "submit_step env cfg context st s = (x, s1)"
    by (cases "submit_step env cfg context st s")
  from x have a: "adds submit_action s s1"
    by (cases rule: submit_step_cases) (simp_all add: adds_def log_def)
  show ?case
  proof (cases x)
    case (Inl e)
    with Cons.prems x a show ?thesis by simp
  next
    case (Inr u)
    with Cons.prems x have "submit_steps env cfg context steps s1 = (r, s')" by simp
    from Cons.IH [OF this] a show ?thesis by (blast intro: adds_trans)
  qed
qed

lemma submit_phase_adds:
  assumes "submit_phase env cfg context s = (r, s')"
  shows "adds late_action s s'"
proof -
  obtain g w1 where g: "get_steps_to_execute env (priority_for_step cfg context) (world s) = (g, w1)"
    by (cases "get_steps_to_execute env (priority_for_step cfg context) (world s)")
  show ?thesis
  proof (cases g)
    case (Inl e)
    with g assms show ?thesis by (auto simp: submit_phase_def adds_same_trace)
  next
    case (Inr steps)
    obtain x s2 where x: "submit_steps env cfg context steps (s\<lparr>world := w1\<rparr>) = (x, s2)"
      by (cases "submit_steps env cfg context steps (s\<lparr>world := w1\<rparr>)")
    have "adds submit_action (s\<lparr>world := w1\<rparr>) s2"
      by (rule submit_steps_adds [OF x])
    then have a: "adds late_action s s2"
      by (auto simp: adds_def list_all_iff submit_late_action)
    show ?thesis
    proof (cases x)
      case (Inl e)
      with g Inr x assms a show ?thesis by (simp add: submit_phase_def)
    next
      case u: (Inr u)
      with g Inr x assms have "s' = log [Sleep TICK_SECONDS] (s2\<lparr>world := sleep env TICK_SECONDS (world s2)\<rparr>)"
        by (simp add: submit_phase_def)
      then have "adds late_action s2 s'" by (simp add: adds_def log_def)
      with a show ?thesis by (rule adds_trans)
    qed
  qed
qed

lemma tick_after_interrupt:
  "adds late_action (interrupt_phase env s) (snd (tick env cfg context s))"
proof -
  obtain r s1 where p: "poll env cfg context s = (r, s1)"
    by (cases "poll env cfg context s")
  have a: "adds late_action (interrupt_phase env s) s1"
    by (rule adds_mono [OF poll_adds_settle [OF p] settle_late_action])
  show ?thesis
  proof (cases "stopping s1 \<or> step_errors s1 \<noteq> [] \<or> r \<noteq> Inr ()")
    case True
    with p have "tick env cfg context s = (r, s1)" by (blast intro: tick_skips)
    with a show ?thesis by simp
  next
    case False
    with p have t: "tick env cfg context s = submit_phase env cfg context s1"
      by (simp add: tick_def)
    obtain r2 s2 where sp: "submit_phase env cfg context s1 = (r2, s2)"
      by (cases "submit_phase env cfg context s1")
    from a submit_phase_adds [OF sp] t sp show ?thesis
      by (auto intro: adds_trans)
  qed
qed

lemma revoke_all_world:
  "world (revoke_all env hs s) = fold (revoke env) hs (world s)"
  by (induction hs arbitrary: s) (simp_all add: log_def)

lemma interrupt_phase_world:
  "world (interrupt_phase env s) =
     (if fst (check_for_interrupts env (world s)) then
        fold (revoke env) (map snd (step_results s))
          (mark_interrupted env (snd (check_for_interrupts env (world s))))
      else snd (check_for_interrupts env (world s)))"
  by (simp add: interrupt_phase_def Let_def log_def revoke_all_world revoke_all_fields
        split: prod.splits)

subsection \<open>Failed fetches and handed-over events\<close>

lemma failures_append: "failures (as @ bs) = failures as @ failures bs"
  by (induction as rule: failures.induct) simp_all

lemma handled_append: "handled (as @ bs) = handled as @ handled bs"
  by (induction as rule: handled.induct) simp_all

lemma fetched_append: "fetched (as @ bs) = fetched as @ fetched bs"
  by (induction as rule: fetched.induct) simp_all

lemma quiet_actions:
  "list_all quiet_action as \<Longrightarrow> failures as = [] \<and> handled as = [] \<and> fetched as = []"
proof (induction as)
  case Nil
  show ?case by simp
next
  case (Cons a as)
  then show ?case by (cases a) simp_all
qed

lemma record_failures_append:
  "record_failures (fs @ gs) errs = record_failures gs (record_failures fs errs)"
  by (simp add: record_failures_def)

lemma settles_refl: "settles s s"
  by (simp add: settles_def record_failures_def)

lemma settles_trans: "settles s s1 \<Longrightarrow> settles s1 s2 \<Longrightarrow> settles s s2"
  by (auto simp: settles_def failures_append handled_append fetched_append
        record_failures_append)

lemma settles_quiet:
  assumes "adds Q s s'" and "\<And>a. Q a \<Longrightarrow> quiet_action a" and "step_errors s' = step_errors s"
  shows "settles s s'"
proof -
  from assms(1) obtain new where new: "trace s' = trace s @ new" "list_all Q new"
    by (auto simp: adds_def)
  from new(2) assms(2) have "list_all quiet_action new"
    by (auto simp: list_all_iff)
  from quiet_actions [OF this] new(1) assms(3) show ?thesis
    by (auto simp: settles_def record_failures_def)
qed

lemma feed_events_trace:
  "trace (feed_events env evs s) =
     trace s @ concat (map (\<lambda>ev. [Yield (WorkerEvent ev), HandleEvent (WorkerEvent ev)]) evs)"
  by (induction evs arbitrary: s) (simp_all add: log_def Let_def)

lemma handled_fed:
  "handled (concat (map (\<lambda>ev. [Yield (WorkerEvent ev), HandleEvent (WorkerEvent ev)]) evs))
     = map WorkerEvent evs"
  "failures (concat (map (\<lambda>ev. [Yield (WorkerEvent ev), HandleEvent (WorkerEvent ev)]) evs)) = []"
  "fetched (concat (map (\<lambda>ev. [Yield (WorkerEvent ev), HandleEvent (WorkerEvent ev)]) evs)) = []"
  by (induction evs) simp_all

lemma fetch_result_settles:
  assumes "fetch_result env k h s = (r, s')"
  shows "settles s s'"
proof -
  obtain g w1 where g: "get env h (world s) = (g, w1)"
    by (cases "get env h (world s)")
  show ?thesis
  proof (cases g)
    case (Inr evs)
    with assms g have "s' = feed_events env evs (log [Get k h (Inr evs)] (s\<lparr>world := w1\<rparr>))"
      by (simp add: fetch_result_def)
    then show ?thesis
      by (simp add: settles_def feed_events_trace feed_events_fields log_def handled_fed
            failures_append handled_append fetched_append record_failures_def)
  next
    case (Inl e)
    show ?thesis
    proof (cases "e = TaskRevokedError")
      case True
      with assms g Inl show ?thesis
        by (auto simp: fetch_result_def settles_def log_def record_failures_def Let_def
              split: sum.splits)
    next
      case False
      with assms g Inl have "s' = (log [Get k h (Inl e)] (s\<lparr>world := w1\<rparr>))
          \<lparr>step_errors := AList.update k (SerializableErrorInfo e) (step_errors s)\<rparr>"
        by (cases e) (simp_all add: fetch_result_def log_def)
      with False show ?thesis
        by (simp add: settles_def log_def record_failures_def)
    qed
  qed
qed

lemma settles_world: "settles (s\<lparr>world := w\<rparr>) s' \<Longrightarrow> settles s s'"
  by (simp add: settles_def)

lemma scan_settles:
  "scan env items pop s = (r, s') \<Longrightarrow> settles s s'"
proof (induction items arbitrary: pop s)
  case Nil
  then show ?case by (simp add: settles_refl)
next
  case (Cons item items)
  obtain k h where item: "item = (k, h)" by (cases item)
  obtain b w1 where b: "ready env h (world s) = (b, w1)"
    by (cases "ready env h (world s)")
  show ?case
  proof (cases b)
    case False
    with Cons.prems item b have "scan env items pop (s\<lparr>world := w1\<rparr>) = (r, s')"
      by simp
    from Cons.IH [OF this] show ?thesis by (rule settles_world)
  next
    case True
    obtain x s1 where x: "fetch_result env k h (s\<lparr>world := w1\<rparr>) = (x, s1)"
      by (cases "fetch_result env k h (s\<lparr>world := w1\<rparr>)")
    have a: "settles s s1"
      by (rule settles_world [OF fetch_result_settles [OF x]])
    show ?thesis
    proof (cases x)
      case (Inl e)
      with Cons.prems item b True x a show ?thesis by simp
    next
      case (Inr u)
      with Cons.prems item b True x have "scan env items (pop @ [k]) s1 = (r, s')"
        by simp
      from a Cons.IH [OF this] show ?thesis by (rule settles_trans)
    qed
  qed
qed

lemma pop_results_quiet:
  "pop_results env ks s = (r, s') \<Longrightarrow> adds quiet_action s s'"
proof (induction ks arbitrary: s)
  case Nil
  then show ?case by (simp add: adds_refl)
next
  case (Cons k ks)
  show ?case
  proof (cases "k \<in> set (map fst (step_results s))")
    case False
    with Cons.prems have "pop_results env ks s = (r, s')" by simp
    from Cons.IH [OF this] show ?thesis .
  next
    case True
    obtain v w1 where v: "verify_complete env k (world s) = (v, w1)"
      by (cases "verify_complete env k (world s)")
    define s2 where "s2 = log [VerifyComplete k]
      (s\<lparr>step_results := AList.delete k (step_results s), world := w1\<rparr>)"
    have a: "adds quiet_action s s2"
      by (simp add: s2_def adds_def log_def)
    show ?thesis
    proof (cases v)
      case (Inl e)
      with Cons.prems True v have "s' = s2"
        by (simp add: s2_def Let_def)
      with a show ?thesis by simp
    next
      case (Inr u)
      with Cons.prems True v have "pop_results env ks s2 = (r, s')"
        by (simp add: s2_def Let_def)
      from a Cons.IH [OF this] show ?thesis by (rule adds_trans)
    qed
  qed
qed

lemma interrupt_quiet_action: "interrupt_action a \<Longrightarrow> quiet_action a"
  by (cases a) simp_all

lemma late_quiet_action: "submit_action a \<Longrightarrow> quiet_action a"
  by (cases a) simp_all

lemma interrupt_phase_settles: "settles s (interrupt_phase env s)"
  by (rule settles_quiet [OF interrupt_phase_adds interrupt_quiet_action])
    (simp_all add: interrupt_phase_fields)

lemma pop_results_settles:
  assumes "pop_results env ks s = (r, s')"
  shows "settles s s'"
  using pop_results_quiet [OF assms] pop_results_fields [OF assms]
  by (auto intro: settles_quiet)

lemma yields_settles: "settles s (log (map Yield evs) (s\<lparr>world := w\<rparr>))"
  by (rule settles_quiet [where Q = "\<lambda>a. \<exists>e. a = Yield e"])
    (auto simp: adds_def log_def list_all_iff)

lemma poll_settles:
  assumes "poll env cfg context s = (r, s')"
  shows "settles s s'"
proof -
  have "settles (interrupt_phase env s) s'"
    using assms
  proof (cases rule: poll_cases)
    case (sort_raise e)
    then show ?thesis by (simp add: settles_refl)
  next
    case (scan_raise items e)
    then show ?thesis by (blast dest: scan_settles)
  next
    case (pop_raise items ks s2 e)
    then show ?thesis by (blast dest: scan_settles pop_results_settles intro: settles_trans)
  next
    case (ok items ks s2 s3)
    have "settles s3 s'"
      unfolding ok by (rule yields_settles)
    with ok show ?thesis by (blast dest: scan_settles pop_results_settles intro: settles_trans)
  qed
  with interrupt_phase_settles show ?thesis by (rule settles_trans)
qed

lemma submit_phase_settles:
  assumes "submit_phase env cfg context s = (r, s')"
  shows "settles s s'"
proof -
  obtain g w1 where g: "get_steps_to_execute env (priority_for_step cfg context) (world s) = (g, w1)"
    by (cases "get_steps_to_execute env (priority_for_step cfg context) (world s)")
  show ?thesis
  proof (cases g)
    case (Inl e)
    with g assms show ?thesis
      by (auto simp: submit_phase_def settles_def record_failures_def)
  next
    case (Inr steps)
    obtain x s2 where x: "submit_steps env cfg context steps (s\<lparr>world := w1\<rparr>) = (x, s2)"
      by (cases "submit_steps env cfg context steps (s\<lparr>world := w1\<rparr>)")
    have "settles (s\<lparr>world := w1\<rparr>) s2"
      using submit_steps_adds [OF x] submit_steps_fields [OF x]
      by (auto intro: settles_quiet late_quiet_action)
    then have a: "settles s s2" by (rule settles_world)
    show ?thesis
    proof (cases x)
      case (Inl e)
      with g Inr x assms a show ?thesis by (simp add: submit_phase_def)
    next
      case u: (Inr u)
      with g Inr x assms have "s' = log [Sleep TICK_SECONDS] (s2\<lparr>world := sleep env TICK_SECONDS (world s2)\<rparr>)"
        by (simp add: submit_phase_def)
      then have "settles s2 s'"
        by (simp add: settles_def log_def record_failures_def)
      with a show ?thesis by (rule settles_trans)
    qed
  qed
qed

lemma tick_settles: "settles s (snd (tick env cfg context s))"
proof -
  obtain r s1 where p: "poll env cfg context s = (r, s1)"
    by (cases "poll env cfg context s")
  have a: "settles s s1" by (rule poll_settles [OF p])
  show ?thesis
  proof (cases "stopping s1 \<or> step_errors s1 \<noteq> [] \<or> r \<noteq> Inr ()")
    case True
    with p have "tick env cfg context s = (r, s1)" by (blast intro: tick_skips)
    with a show ?thesis by simp
  next
    case False
    with p have t: "tick env cfg context s = submit_phase env cfg context s1"
      by (simp add: tick_def)
    obtain r2 s2 where sp: "submit_phase env cfg context s1 = (r2, s2)"
      by (cases "submit_phase env cfg context s1")
    from a submit_phase_settles [OF sp] t sp show ?thesis
      by (auto intro: settles_trans)
  qed
qed

lemma loop_settles:
  "loop fuel env cfg context s = Some (r, s') \<Longrightarrow> settles s s'"
proof (induction fuel arbitrary: s)
  case 0
  then show ?case by simp
next
  case (Suc n)
  show ?case
  proof (cases "loop_condition env s")
    case False
    with Suc.prems show ?thesis by (simp add: settles_refl)
  next
    case True
    obtain x s1 where x: "tick env cfg context s = (x, s1)"
      by (cases "tick env cfg context s")
    have a: "settles s s1"
      using tick_settles [of s env cfg "context"] x by simp
    show ?thesis
    proof (cases x)
      case (Inl e)
      with Suc.prems True x a show ?thesis by simp
    next
      case (Inr u)
      with Suc.prems True x have "loop n env cfg context s1 = Some (r, s')" by simp
      from a Suc.IH [OF this] show ?thesis by (rule settles_trans)
    qed
  qed
qed

lemma tick_trace:
  "trace (snd (tick env cfg context s)) = trace s @ tick_actions env cfg context s"
  using tick_settles [of s env cfg "context"] by (auto simp: settles_def tick_actions_def)

lemma record_failures_Nil: "record_failures fs errs = [] \<longleftrightarrow> fs = [] \<and> errs = []"
proof (induction fs arbitrary: errs)
  case Nil
  show ?case by (simp add: record_failures_def)
next
  case (Cons f fs)
  then show ?case by (simp add: record_failures_def update_not_Nil)
qed

lemma record_failures_keys:
  "fst ` set (record_failures fs errs) = fst ` set fs \<union> fst ` set errs"
proof (induction fs arbitrary: errs)
  case Nil
  show ?case by (simp add: record_failures_def)
next
  case (Cons f fs)
  then show ?case by (auto simp: record_failures_def dom_update)
qed

lemma record_failures_distinct:
  "distinct (map fst errs) \<Longrightarrow> distinct (map fst (record_failures fs errs))"
proof (induction fs arbitrary: errs)
  case Nil
  then show ?case by (simp add: record_failures_def)
next
  case (Cons f fs)
  then show ?case by (simp add: record_failures_def distinct_update)
qed

lemma loop_record:
  assumes "loop fuel env cfg context (initial w) = Some (r, s)"
  shows "step_errors s = record_failures (failures (trace s)) []"
    and "handled (trace s) = fetched (trace s)"
  using loop_settles [OF assms] by (auto simp: settles_def initial_def)

subsection \<open>Submission\<close>

lemma submit_steps_append:
  "submit_steps env cfg context (xs @ ys) s =
     (case submit_steps env cfg context xs s of
        (Inl e, s1) \<Rightarrow> (Inl e, s1)
      | (Inr u, s1) \<Rightarrow> submit_steps env cfg context ys s1)"
  by (induction xs arbitrary: s) (auto split: prod.splits sum.splits)

lemma get_run_priority_total: "\<exists>r. get_run_priority context = Inr r"
  by (auto simp: get_run_priority_def py_int_def split: option.splits)

lemma step_priority_raises:
  assumes "tag_get (tags st) DAGSTER_CELERY_STEP_PRIORITY_TAG = Some v" and "parse_int v = None"
  shows "step_tag_priority cfg st = Inl (ValueError v)"
    and "get_step_priority cfg context st = Inl (ValueError v)"
    and "priority_for_step cfg context st = Inl (ValueError v)"
  using assms get_run_priority_total [of "context"]
  by (auto simp: step_tag_priority_def get_step_priority_def priority_for_step_def py_int_def)

lemma submit_steps_failed:
  assumes "submit_steps env cfg context steps s = (r, s')"
    and "Submit st q p (Inl e) \<in> set (drop (length (trace s)) (trace s'))"
  shows "r = Inl e \<and> (\<exists>before. drop (length (trace s)) (trace s') =
           before @ [Submit st q p (Inl e), Yield (submission_error_event e)])"
  using assms
proof (induction steps arbitrary: s)
  case Nil
  then show ?case by simp
next
  case (Cons st0 steps)
  obtain x s1 where x: "submit_step env cfg context st0 s = (x, s1)"
    by (cases "submit_step env cfg context st0 s")
  from x show ?case
  proof (cases rule: submit_step_cases)
    case (priority_raise e0)
    with Cons.prems x show ?thesis by (auto simp: log_def)
  next
    case (submit_raise p0 e0 w2)
    with Cons.prems x show ?thesis by (auto simp: log_def)
  next
    case (submitted p0 h w2)
    with Cons.prems(1) x have rest: "submit_steps env cfg context steps s1 = (r, s')"
      by simp
    obtain new where new: "trace s' = trace s1 @ new"
      using submit_steps_adds [OF rest] by (auto simp: adds_def)
    have t1: "trace s1 = trace s @ [Yield (submitting_event st0 (step_queue cfg st0)),
                 Submit st0 (step_queue cfg st0) p0 (Inr h)]"
      by (simp add: submitted log_def)
    from Cons.prems(2) have "Submit st q p (Inl e) \<in> set (drop (length (trace s1)) (trace s'))"
      by (auto simp: new t1)
    from Cons.IH [OF rest this] obtain before where
      b: "r = Inl e" "new = before @ [Submit st q p (Inl e), Yield (submission_error_event e)]"
      by (auto simp: new)
    then show ?thesis by (simp add: new t1)
  qed
qed

lemma poll_action_no_submit: "list_all poll_action as \<Longrightarrow> Submit st q p r \<notin> set as"
  by (induction as) auto

lemma tick_failed_submission:
  assumes "Submit st q p (Inl e) \<in> set (tick_actions env cfg context s)"
  shows "fst (tick env cfg context s) = Inl e
       \<and> (\<exists>before. tick_actions env cfg context s =
             before @ [Submit st q p (Inl e), Yield (submission_error_event e)])
       \<and> (loop_condition env s \<longrightarrow>
            loop (Suc n) env cfg context s = Some (Inl e, snd (tick env cfg context s)))"
proof -
  obtain r s1 where p: "poll env cfg context s = (r, s1)"
    by (cases "poll env cfg context s")
  obtain pnew where pnew: "trace s1 = trace s @ pnew" "list_all poll_action pnew"
    using poll_adds [OF p] by (auto simp: adds_def)
  have go: "\<not> (stopping s1 \<or> step_errors s1 \<noteq> [] \<or> r \<noteq> Inr ())"
  proof
    assume "stopping s1 \<or> step_errors s1 \<noteq> [] \<or> r \<noteq> Inr ()"
    with p have "tick env cfg context s = (r, s1)" by (blast intro: tick_skips)
    with assms pnew show False
      by (simp add: tick_actions_def poll_action_no_submit)
  qed
  with p have t: "tick env cfg context s = submit_phase env cfg context s1"
    by (simp add: tick_def)
  obtain g w1 where g: "get_steps_to_execute env (priority_for_step cfg context) (world s1) = (g, w1)"
    by (cases "get_steps_to_execute env (priority_for_step cfg context) (world s1)")
  have main: "fst (tick env cfg context s) = Inl e
       \<and> (\<exists>before. tick_actions env cfg context s =
             before @ [Submit st q p (Inl e), Yield (submission_error_event e)])"
  proof (cases g)
    case (Inl e0)
    with g t assms pnew show ?thesis
      by (simp add: submit_phase_def tick_actions_def poll_action_no_submit)
  next
    case (Inr steps)
    obtain x s2 where x: "submit_steps env cfg context steps (s1\<lparr>world := w1\<rparr>) = (x, s2)"
      by (cases "submit_steps env cfg context steps (s1\<lparr>world := w1\<rparr>)")
    obtain snew where snew: "trace s2 = trace s1 @ snew"
      using submit_steps_adds [OF x] by (auto simp: adds_def)
    have ta: "tick_actions env cfg context s = pnew @ snew @ (case x of Inl e0 \<Rightarrow> [] | Inr u \<Rightarrow> [Sleep TICK_SECONDS])"
      using g t Inr x by (cases x) (simp_all add: tick_actions_def submit_phase_def pnew snew log_def)
    with assms pnew(2) have "Submit st q p (Inl e) \<in> set snew"
      by (cases x) (auto simp: poll_action_no_submit)
    then have "Submit st q p (Inl e) \<in> set (drop (length (trace (s1\<lparr>world := w1\<rparr>))) (trace s2))"
      by (simp add: snew)
    from submit_steps_failed [OF x this] obtain before where
      b: "x = Inl e" "snew = before @ [Submit st q p (Inl e), Yield (submission_error_event e)]"
      by (auto simp: snew)
    with g t Inr x ta show ?thesis
      by (simp add: submit_phase_def)
  qed
  then show ?thesis
    by (cases "tick env cfg context s") auto
qed


lemma loop_failed_submission:
  assumes "loop fuel env cfg context s = Some (r, s')"
    and "Submit st q p (Inl e) \<in> set (drop (length (trace s)) (trace s'))"
  shows "r = Inl e
       \<and> (\<exists>before. trace s' = before @ [Submit st q p (Inl e), Yield (submission_error_event e)])"
  using assms
proof (induction fuel arbitrary: s)
  case 0
  then show ?case by simp
next
  case (Suc n)
  show ?case
  proof (cases "loop_condition env s")
    case False
    with Suc.prems show ?thesis by simp
  next
    case True
    obtain x s1 where x: "tick env cfg context s = (x, s1)"
      by (cases "tick env cfg context s")
    have t1: "trace s1 = trace s @ tick_actions env cfg context s"
      using tick_trace [of env cfg "context" s] x by simp
    show ?thesis
    proof (cases x)
      case (Inl e0)
      with Suc.prems(1) True x have s': "r = Inl e0" "s' = s1" by simp_all
      with Suc.prems(2) t1 have "Submit st q p (Inl e) \<in> set (tick_actions env cfg context s)"
        by simp
      from tick_failed_submission [OF this, of n] x s' t1 Inl show ?thesis
        by auto
    next
      case (Inr u)
      with Suc.prems(1) True x have rest: "loop n env cfg context s1 = Some (r, s')" by simp
      obtain new where new: "trace s' = trace s1 @ new"
        using loop_settles [OF rest] by (auto simp: settles_def)
      have "Submit st q p (Inl e) \<notin> set (tick_actions env cfg context s)"
        using tick_failed_submission [of st q p e env cfg "context" s n] x Inr by auto
      with Suc.prems(2) have "Submit st q p (Inl e) \<in> set (drop (length (trace s1)) (trace s'))"
        by (simp add: new t1)
      from Suc.IH [OF rest this] show ?thesis .
    qed
  qed
qed







subsection \<open>The integer conversion on sample texts\<close>

lemma py_int_examples:
  "py_int ''12'' = Inr 12"
  "py_int '' -7 '' = Inr (- 7)"
  "py_int ''+1_000'' = Inr 1000"
  "py_int [CHR 0x09, CHR ''5'', CHR 0x0A] = Inr 5"
  "py_int [CHR 0xA0, CHR ''5''] = Inr 5"
  "py_int [CHR 0x1C, CHR ''5''] = Inl (ValueError [CHR 0x1C, CHR ''5''])"
  "py_int [CHR ''5'', CHR 0x1F] = Inl (ValueError [CHR ''5'', CHR 0x1F])"
  "py_int ''high'' = Inl (ValueError ''high'')"
  "py_int '''' = Inl (ValueError '''')"
  "py_int ''1__0'' = Inl (ValueError ''1__0'')"
  "py_int ''_1'' = Inl (ValueError ''_1'')"
  "py_int ''1_'' = Inl (ValueError ''1_'')"
  "py_int ''- 1'' = Inl (ValueError ''- 1'')"
  "py_int ''1.5'' = Inl (ValueError ''1.5'')"
  by (simp_all add: py_int_def parse_int_def strip_def is_space_def parse_unsigned_def
        int_max_str_digits_def is_digit_def digit_val_def)


subsection \<open>Running the examples\<close>

lemmas eval_defs = sim_env_def tick_def poll_def
  interrupt_phase_def Let_def log_def py_sorted_def priority_for_key_def priority_for_step_def
  step_tag_priority_def tag_get_def get_run_priority_def no_tags_def cfg0_def tagged_step_def
  py_int_def parse_int_def strip_def is_space_def parse_unsigned_def int_max_str_digits_def is_digit_def digit_val_def
  DAGSTER_CELERY_STEP_PRIORITY_TAG_def DAGSTER_CELERY_RUN_PRIORITY_TAG_def tick_actions_def

lemma interrupted_first_tick:
  "tick interrupted_env cfg0 no_tags in_flight =
     (Inr (), in_flight\<lparr>stopping := True, world := 2,
        trace := [CheckForInterrupts True, Yield (interrupt_event [''a'']), MarkInterrupted,
                  Revoke 7]\<rparr>)"
  by (simp add: eval_defs interrupted_env_def in_flight_def)

lemmas run_defs = eval_defs submit_phase_def submit_step_def try_submit_def
  get_step_priority_def step_queue_def DAGSTER_CELERY_QUEUE_TAG_def initial_def
  loop_condition_def TICK_SECONDS_def

lemma failing_submit_first_tick:
  "tick failing_submit_env cfg0 no_tags (initial 0) =
     (Inl (OtherException ''broker unreachable''),
      \<lparr>stopping = False, step_results = [(''a'', 7)], step_errors = [], world = 1,
       trace =
         [CheckForInterrupts False,
          Yield (submitting_event (tagged_step ''a'' ''5'') ''dagster''),
          Submit (tagged_step ''a'' ''5'') ''dagster'' 5 (Inr 7),
          Yield (submitting_event (tagged_step ''b'' ''3'') ''dagster''),
          Submit (tagged_step ''b'' ''3'') ''dagster'' 3
            (Inl (OtherException ''broker unreachable'')),
          Yield (submission_error_event (OtherException ''broker unreachable''))]\<rparr>)"
  by (simp add: run_defs failing_submit_env_def)


lemma unsorting_first_tick:
  "tick unsorting_env cfg0 no_tags (initial 0) =
     (Inl (ValueError ''high''),
      \<lparr>stopping = False, step_results = [], step_errors = [], world = 1,
       trace =
         [CheckForInterrupts False,
          Yield (submitting_event (tagged_step ''a'' ''high'') ''dagster''),
          Yield (submission_error_event (ValueError ''high''))]\<rparr>)"
  by (simp add: run_defs unsorting_env_def)

lemma failing_fetch_run:
  "loop 4 failing_fetch_env cfg0 no_tags (initial 0) =
     Some (Inr (),
      \<lparr>stopping = False, step_results = [],
       step_errors = [(''a'', SerializableErrorInfo (OtherException ''boom'')),
                      (''b'', SerializableErrorInfo (OtherException ''bang''))],
       world = 3,
       trace =
         [CheckForInterrupts False,
          Yield (submitting_event (tagged_step ''a'' ''5'') ''dagster''),
          Submit (tagged_step ''a'' ''5'') ''dagster'' 5 (Inr 1),
          Yield (submitting_event (tagged_step ''b'' ''1'') ''dagster''),
          Submit (tagged_step ''b'' ''1'') ''dagster'' 1 (Inr 2),
          Sleep 1,
          CheckForInterrupts False,
          Get ''a'' 1 (Inl (OtherException ''boom'')),
          Get ''b'' 2 (Inl (OtherException ''bang'')),
          VerifyComplete ''a'', VerifyComplete ''b'',
          CheckForInterrupts False]\<rparr>)"
  by (simp add: run_defs failing_fetch_env_def eval_nat_numeral fetch_result_def)

lemma fetching_reached:
  "interrupt_phase failing_fetch_env (snd (tick failing_fetch_env cfg0 no_tags (initial 0)))
     = fetching"
  by (simp add: run_defs failing_fetch_env_def fetching_def)

subsection \<open>When the loop ends\<close>

text \<open>
  C1 (as stated): the loop would end exactly when the tracker is complete, the loop is not
  draining and no handle is outstanding. It does not: a draining loop with no outstanding
  handle ends although the tracker is not complete.
\<close>

theorem loop_exit_counterexample:
  "loop 1 idle_env cfg0 no_tags drained = Some (Inr (), drained)
   \<and> \<not> (is_complete idle_env (world drained) \<and> \<not> stopping drained \<and> step_results drained = [])"
  by (simp add: loop_condition_def drained_def idle_env_def sim_env_def)

text \<open>
  C1 (amended): the loop ends exactly when no handle is outstanding and the tracker is
  complete or the loop is draining; in every other state the body runs once more.
\<close>

theorem loop_exit_condition:
  "loop (Suc n) env cfg context s =
     (if step_results s = [] \<and> (is_complete env (world s) \<or> stopping s) then Some (Inr (), s)
      else (case tick env cfg context s of
              (Inl e, s1) \<Rightarrow> Some (Inl e, s1)
            | (Inr u, s1) \<Rightarrow> loop n env cfg context s1))"
  by (auto simp: loop_condition_def)

theorem loop_exit_condition_witness:
  "loop (Suc 0) idle_env cfg0 no_tags drained = Some (Inr (), drained)"
  using loop_exit_condition [of 0 idle_env cfg0 no_tags drained]
  by (simp add: drained_def idle_env_def sim_env_def)

subsection \<open>The run-level priority\<close>

text \<open>
  C9: when the run has no run-priority tag, or the tag's text is not an integer for
  \<^verbatim>\<open>int()\<close>, \<open>_get_run_priority\<close> returns 0 and raises nothing. It raises nothing in any
  case: a tag that is an integer gives that integer.
\<close>

theorem run_priority_default:
  "(tag_get (run_tags context) DAGSTER_CELERY_RUN_PRIORITY_TAG = None
      \<or> (\<exists>v. tag_get (run_tags context) DAGSTER_CELERY_RUN_PRIORITY_TAG = Some v
             \<and> parse_int v = None)
    \<longrightarrow> get_run_priority context = Inr 0)
   \<and> (\<forall>v n. tag_get (run_tags context) DAGSTER_CELERY_RUN_PRIORITY_TAG = Some v
             \<and> parse_int v = Some n
          \<longrightarrow> get_run_priority context = Inr n)
   \<and> (\<exists>r. get_run_priority context = Inr r)"
  by (auto simp: get_run_priority_def py_int_def split: option.splits)

theorem run_priority_default_witness:
  "get_run_priority \<lparr>run_tags = [(''dagster-celery/run_priority'', ''high'')]\<rparr> = Inr 0
   \<and> get_run_priority \<lparr>run_tags = [(''dagster-celery/run_priority'', [CHR 0x1C, CHR ''5''])]\<rparr>
       = Inr 0
   \<and> get_run_priority \<lparr>run_tags = [(''dagster/priority'', ''3'')]\<rparr> = Inr 0
   \<and> get_run_priority \<lparr>run_tags = [(''dagster-celery/run_priority'', '' 7'')]\<rparr> = Inr 7"
proof -
  have unparseable: "parse_int ''high'' = None" "parse_int [CHR 0x1C, CHR ''5''] = None"
    by (simp_all add: parse_int_def strip_def is_space_def parse_unsigned_def is_digit_def)
  have seven: "parse_int '' 7'' = Some 7"
    by (simp add: parse_int_def strip_def is_space_def parse_unsigned_def is_digit_def
          digit_val_def int_max_str_digits_def)
  have a: "tag_get (run_tags \<lparr>run_tags = [(''dagster-celery/run_priority'', v)]\<rparr>)
             DAGSTER_CELERY_RUN_PRIORITY_TAG = Some v" for v
    by (simp add: tag_get_def DAGSTER_CELERY_RUN_PRIORITY_TAG_def)
  have b: "tag_get (run_tags \<lparr>run_tags = [(''dagster/priority'', ''3'')]\<rparr>)
             DAGSTER_CELERY_RUN_PRIORITY_TAG = None"
    by (simp add: tag_get_def DAGSTER_CELERY_RUN_PRIORITY_TAG_def)
  show ?thesis
    using run_priority_default [of "\<lparr>run_tags = [(''dagster-celery/run_priority'', ''high'')]\<rparr>"]
      run_priority_default
        [of "\<lparr>run_tags = [(''dagster-celery/run_priority'', [CHR 0x1C, CHR ''5''])]\<rparr>"]
      run_priority_default [of "\<lparr>run_tags = [(''dagster/priority'', ''3'')]\<rparr>"]
      run_priority_default [of "\<lparr>run_tags = [(''dagster-celery/run_priority'', '' 7'')]\<rparr>"]
      a b unparseable seven
    by blast
qed

subsection \<open>No submission once draining or failed\<close>

text \<open>
  C2: in an iteration of a loop that is draining (it was draining before, or the interrupt is
  detected in this iteration) or that has a Step Error recorded (before, or in this
  iteration), no step is submitted: \<^verbatim>\<open>step_execution_fn\<close> is not called, whatever the tracker
  would release.
\<close>

theorem no_submission_when_stopping_or_failed:
  assumes "stopping s \<or> fst (check_for_interrupts env (world s)) \<or> step_errors s \<noteq> []
           \<or> stopping (snd (tick env cfg context s))
           \<or> step_errors (snd (tick env cfg context s)) \<noteq> []"
  shows "submissions (tick_actions env cfg context s) = []"
proof -
  obtain r s1 where p: "poll env cfg context s = (r, s1)"
    by (cases "poll env cfg context s")
  from poll_fields [OF p] tick_fields [OF p] assms
  have "stopping s1 \<or> step_errors s1 \<noteq> []" by auto
  with p have "tick env cfg context s = (r, s1)" by (blast intro: tick_skips)
  then have "tick_actions env cfg context s = drop (length (trace s)) (trace s1)"
    by (simp add: tick_actions_def)
  with adds_drop [OF poll_adds [OF p]] show ?thesis
    by (simp add: poll_action_quiet)
qed

theorem no_submission_when_stopping_or_failed_witness:
  "fst (get_steps_to_execute one_step_env (priority_for_step cfg0 no_tags) 1)
     = Inr [tagged_step ''a'' ''5'']
   \<and> submissions (tick_actions one_step_env cfg0 no_tags draining_fresh) = []"
proof -
  have h: "stopping draining_fresh" by (simp add: draining_fresh_def)
  have r: "fst (get_steps_to_execute one_step_env (priority_for_step cfg0 no_tags) 1)
     = Inr [tagged_step ''a'' ''5'']"
    by (simp add: one_step_env_def sim_env_def py_sorted_def tagged_step_def
          priority_for_step_def step_tag_priority_def tag_get_def get_run_priority_def
          no_tags_def py_int_def parse_int_def strip_def is_space_def parse_unsigned_def int_max_str_digits_def
          is_digit_def digit_val_def DAGSTER_CELERY_STEP_PRIORITY_TAG_def
          DAGSTER_CELERY_RUN_PRIORITY_TAG_def)
  show ?thesis
    using no_submission_when_stopping_or_failed [of draining_fresh one_step_env cfg0 no_tags] h r
    by simp
qed

subsection \<open>Revoking on interrupts\<close>

text \<open>
  C7 (as stated): a handle revoked in one iteration would not be revoked again in the next
  when the interrupt is reported again, the loop being draining by then. It is: the handle
  \<open>7\<close> is revoked in the first iteration and, the loop draining, once more in the second.
\<close>

theorem revoke_twice_counterexample:
  "revocations (tick_actions interrupted_env cfg0 no_tags in_flight) = [7]
   \<and> stopping (snd (tick interrupted_env cfg0 no_tags in_flight))
   \<and> fst (check_for_interrupts interrupted_env
           (world (snd (tick interrupted_env cfg0 no_tags in_flight))))
   \<and> revocations (tick_actions interrupted_env cfg0 no_tags
         (snd (tick interrupted_env cfg0 no_tags in_flight))) = [7]"
  unfolding interrupted_first_tick
  by (simp add: eval_defs interrupted_env_def in_flight_def)

text \<open>
  C7 (amended): an iteration begins with the interrupt check. When the check reports an
  interrupt, whether the loop was draining already or not, the iteration goes on with the
  cancellation notice naming the outstanding keys, sets the draining flag, marks the tracker
  interrupted and revokes every handle outstanding at that moment once, in the order of the
  dictionary. When the check reports none, the draining flag stays as it was. Nothing an
  iteration does later is a revoke, a mark or another check.
\<close>

theorem revoke_on_every_detected_interrupt:
  "(\<exists>later. list_all late_action later \<and>
      tick_actions env cfg context s =
        CheckForInterrupts (fst (check_for_interrupts env (world s)))
        # (if fst (check_for_interrupts env (world s)) then
             Yield (interrupt_event (map fst (step_results s))) # MarkInterrupted
             # map Revoke (map snd (step_results s))
           else [])
        @ later)
   \<and> revocations (tick_actions env cfg context s) =
       (if fst (check_for_interrupts env (world s)) then map snd (step_results s) else [])
   \<and> stopping (snd (tick env cfg context s)) =
       (stopping s \<or> fst (check_for_interrupts env (world s)))
   \<and> world (interrupt_phase env s) =
       (if fst (check_for_interrupts env (world s)) then
          fold (revoke env) (map snd (step_results s))
            (mark_interrupted env (snd (check_for_interrupts env (world s))))
        else snd (check_for_interrupts env (world s)))"
proof -
  obtain new where new: "trace (snd (tick env cfg context s)) = trace (interrupt_phase env s) @ new"
    "list_all late_action new"
    using tick_after_interrupt [of env s cfg "context"] by (auto simp: adds_def)
  have ta: "tick_actions env cfg context s =
        CheckForInterrupts (fst (check_for_interrupts env (world s)))
        # (if fst (check_for_interrupts env (world s)) then
             Yield (interrupt_event (map fst (step_results s))) # MarkInterrupted
             # map Revoke (map snd (step_results s))
           else [])
        @ new"
    by (simp add: tick_actions_def new interrupt_phase_trace)
  have rv: "revocations (tick_actions env cfg context s) =
       (if fst (check_for_interrupts env (world s)) then map snd (step_results s) else [])"
    unfolding ta
    by (simp add: revocations_append revocations_map_Revoke late_action_quiet [OF new(2)]
          del: map_map)
  obtain r s1 where p: "poll env cfg context s = (r, s1)"
    by (cases "poll env cfg context s")
  have st: "stopping (snd (tick env cfg context s)) =
       (stopping s \<or> fst (check_for_interrupts env (world s)))"
    using poll_fields [OF p] tick_fields(1) [OF p] by simp
  from ta new(2) rv st interrupt_phase_world [of env s] show ?thesis
    by blast
qed

theorem revoke_on_every_detected_interrupt_witness:
  "take 4 (tick_actions interrupted_env cfg0 no_tags
      (snd (tick interrupted_env cfg0 no_tags in_flight)))
     = [CheckForInterrupts True, Yield (interrupt_event [''a'']), MarkInterrupted, Revoke 7]
   \<and> revocations (tick_actions interrupted_env cfg0 no_tags
        (snd (tick interrupted_env cfg0 no_tags in_flight))) = [7]
   \<and> stopping (snd (tick interrupted_env cfg0 no_tags
        (snd (tick interrupted_env cfg0 no_tags in_flight))))"
proof -
  have c: "check_for_interrupts interrupted_env
      (world (snd (tick interrupted_env cfg0 no_tags in_flight))) = (True, 3)"
    and r: "step_results (snd (tick interrupted_env cfg0 no_tags in_flight)) = [(''a'', 7)]"
    unfolding interrupted_first_tick
    by (simp_all add: interrupted_env_def sim_env_def in_flight_def)
  show ?thesis
    using revoke_on_every_detected_interrupt [of interrupted_env cfg0 no_tags
        "snd (tick interrupted_env cfg0 no_tags in_flight)"]
    unfolding c r by auto
qed

subsection \<open>Sleeping between iterations\<close>

text \<open>
  C8: every iteration would end with a sleep of one tick, also when submission is skipped. In
  the code the \<^verbatim>\<open>continue\<close> that skips the submission also skips the \<^verbatim>\<open>time.sleep\<close> at the
  end of the body: an iteration of a draining loop, or of one with a Step Error recorded, does
  not sleep.
\<close>

theorem no_sleep_when_submission_skipped:
  assumes "stopping s \<or> fst (check_for_interrupts env (world s)) \<or> step_errors s \<noteq> []
           \<or> stopping (snd (tick env cfg context s))
           \<or> step_errors (snd (tick env cfg context s)) \<noteq> []"
  shows "sleeps (tick_actions env cfg context s) = []"
proof -
  obtain r s1 where p: "poll env cfg context s = (r, s1)"
    by (cases "poll env cfg context s")
  from poll_fields [OF p] tick_fields [OF p] assms
  have "stopping s1 \<or> step_errors s1 \<noteq> []" by auto
  with p have "tick env cfg context s = (r, s1)" by (blast intro: tick_skips)
  then have "tick_actions env cfg context s = drop (length (trace s)) (trace s1)"
    by (simp add: tick_actions_def)
  with adds_drop [OF poll_adds [OF p]] show ?thesis
    by (simp add: poll_action_quiet)
qed

theorem no_sleep_when_submission_skipped_witness:
  "fst (tick interrupted_env cfg0 no_tags in_flight) = Inr ()
   \<and> loop_condition interrupted_env (snd (tick interrupted_env cfg0 no_tags in_flight))
   \<and> sleeps (tick_actions interrupted_env cfg0 no_tags in_flight) = []"
proof -
  have h: "fst (check_for_interrupts interrupted_env (world in_flight))"
    by (simp add: interrupted_env_def sim_env_def)
  have a: "fst (tick interrupted_env cfg0 no_tags in_flight) = Inr ()"
    by (simp add: interrupted_first_tick)
  have b: "loop_condition interrupted_env (snd (tick interrupted_env cfg0 no_tags in_flight))"
    unfolding interrupted_first_tick by (simp add: loop_condition_def in_flight_def)
  show ?thesis
    using no_sleep_when_submission_skipped [of in_flight interrupted_env cfg0 no_tags] h a b
    by blast
qed

subsection \<open>The order of submission\<close>



subsection \<open>The aggregate of the Step Errors\<close>

text \<open>
  C4: when the loop ends without raising, the generator raises the aggregate
  \<^verbatim>\<open>DagsterSubprocessError\<close> if a fetch failed during the run, and not otherwise (what is
  raised then, if anything, comes from the end of the \<^verbatim>\<open>with\<close> block). The Step Errors at the
  end are the failed fetches of the whole run entered one after the other: one entry for each
  key whose fetch failed. The aggregate has one line \<^verbatim>\<open>[key]: error\<close> and one error info for
  every entry.
\<close>

theorem aggregate_of_all_step_errors:
  assumes "loop fuel env cfg context (initial w) = Some (Inr (), s)"
  shows "step_errors s = record_failures (failures (trace s)) []
       \<and> fst ` set (step_errors s) = fst ` set (failures (trace s))
       \<and> distinct (map fst (step_errors s))
       \<and> core_celery_execution_loop fuel env cfg context w =
           Some (if failures (trace s) = [] then
                   map_option Propagated (exit_active_execution env (world s))
                 else
                   Some (DagsterSubprocessError
                     (''During celery execution errors occurred in workers:'' @ [CHR 0x0A]
                        @ join [CHR 0x0A]
                            (map (\<lambda>x. ''['' @ fst x @ '']: '' @ to_string env (snd x))
                               (step_errors s)))
                     (map snd (step_errors s))),
                 s)"
proof -
  note r = loop_record(1) [OF assms]
  have k: "fst ` set (step_errors s) = fst ` set (failures (trace s))"
    unfolding r by (simp add: record_failures_keys)
  have d: "distinct (map fst (step_errors s))"
    unfolding r by (rule record_failures_distinct) simp
  have n: "step_errors s = [] \<longleftrightarrow> failures (trace s) = []"
    unfolding r by (simp add: record_failures_Nil)
  have "core_celery_execution_loop fuel env cfg context w = Some (finish env s, s)"
    by (simp add: core_celery_execution_loop_def assms)
  with r [symmetric] k d n show ?thesis
    by (simp add: finish_def error_list_def)
qed

theorem aggregate_of_all_step_errors_witness:
  "map_option fst (core_celery_execution_loop 4 failing_fetch_env cfg0 no_tags 0) =
     Some (Some (DagsterSubprocessError
       (''During celery execution errors occurred in workers:'' @ [CHR 0x0A]
          @ ''[a]: boom'' @ [CHR 0x0A] @ ''[b]: bang'')
       [SerializableErrorInfo (OtherException ''boom''),
        SerializableErrorInfo (OtherException ''bang'')]))"
  using aggregate_of_all_step_errors [OF failing_fetch_run]
  by (simp add: failing_fetch_env_def sim_env_def)

subsection \<open>A submission that raises\<close>

text \<open>
  C5: when a call of \<^verbatim>\<open>step_execution_fn\<close> raises, the engine-error event for that exception
  follows and nothing else: the iteration ends with the same exception, and so does the loop,
  at once; no further step is submitted and no further iteration begins. A finished run of the
  generator in which a submission raised has that submission and its event as its last two
  actions, and raised that exception.
\<close>

theorem submission_error_is_fatal:
  "(Submit st q p (Inl e) \<in> set (tick_actions env cfg context s) \<longrightarrow>
      fst (tick env cfg context s) = Inl e
      \<and> (\<exists>before. tick_actions env cfg context s =
            before @ [Submit st q p (Inl e), Yield (submission_error_event e)])
      \<and> (loop_condition env s \<longrightarrow>
           loop (Suc n) env cfg context s = Some (Inl e, snd (tick env cfg context s))))
   \<and> (core_celery_execution_loop fuel env cfg context w = Some (res, s')
        \<and> Submit st q p (Inl e) \<in> set (trace s') \<longrightarrow>
      res = Some (Propagated e)
      \<and> (\<exists>before. trace s' =
            before @ [Submit st q p (Inl e), Yield (submission_error_event e)]))"
proof -
  have "res = Some (Propagated e)
      \<and> (\<exists>before. trace s' =
            before @ [Submit st q p (Inl e), Yield (submission_error_event e)])"
    if c: "core_celery_execution_loop fuel env cfg context w = Some (res, s')"
      and m: "Submit st q p (Inl e) \<in> set (trace s')"
  proof -
    from c obtain r where r: "loop fuel env cfg context (initial w) = Some (r, s')"
      by (auto simp: core_celery_execution_loop_def split: option.splits sum.splits)
    from m have "Submit st q p (Inl e) \<in> set (drop (length (trace (initial w))) (trace s'))"
      by (simp add: initial_def)
    from loop_failed_submission [OF r this] c r show ?thesis
      by (simp add: core_celery_execution_loop_def)
  qed
  with tick_failed_submission [of st q p e env cfg "context" s n] show ?thesis
    by blast
qed

theorem submission_error_is_fatal_witness:
  "Submit (tagged_step ''b'' ''3'') ''dagster'' 3 (Inl (OtherException ''broker unreachable''))
     \<in> set (tick_actions failing_submit_env cfg0 no_tags (initial 0))
   \<and> submissions (tick_actions failing_submit_env cfg0 no_tags (initial 0)) =
       [(tagged_step ''a'' ''5'', 5), (tagged_step ''b'' ''3'', 3)]
   \<and> loop (Suc 0) failing_submit_env cfg0 no_tags (initial 0) =
       Some (Inl (OtherException ''broker unreachable''),
             snd (tick failing_submit_env cfg0 no_tags (initial 0)))
   \<and> core_celery_execution_loop (Suc 0) failing_submit_env cfg0 no_tags 0 =
       Some (Some (Propagated (OtherException ''broker unreachable'')),
             snd (tick failing_submit_env cfg0 no_tags (initial 0)))"
proof -
  have m: "Submit (tagged_step ''b'' ''3'') ''dagster'' 3 (Inl (OtherException ''broker unreachable''))
     \<in> set (tick_actions failing_submit_env cfg0 no_tags (initial 0))"
    and s: "submissions (tick_actions failing_submit_env cfg0 no_tags (initial 0)) =
       [(tagged_step ''a'' ''5'', 5), (tagged_step ''b'' ''3'', 3)]"
    unfolding tick_actions_def failing_submit_first_tick by (simp_all add: initial_def)
  have c: "loop_condition failing_submit_env (initial 0)"
    by (simp add: loop_condition_def initial_def failing_submit_env_def sim_env_def)
  have l: "loop (Suc 0) failing_submit_env cfg0 no_tags (initial 0) =
       Some (Inl (OtherException ''broker unreachable''),
             snd (tick failing_submit_env cfg0 no_tags (initial 0)))"
    using submission_error_is_fatal [of "tagged_step ''b'' ''3''" "''dagster''" 3
        "OtherException ''broker unreachable''" failing_submit_env cfg0 no_tags "initial 0" 0]
      m c
    by blast
  from l have "core_celery_execution_loop (Suc 0) failing_submit_env cfg0 no_tags 0 =
       Some (Some (Propagated (OtherException ''broker unreachable'')),
             snd (tick failing_submit_env cfg0 no_tags (initial 0)))"
    unfolding core_celery_execution_loop_def by simp
  with m s l show ?thesis by blast
qed

subsection \<open>A fetch that raises\<close>

text \<open>
  C6: when the fetch of a ready handle raises something other than \<^verbatim>\<open>TaskRevokedError\<close>, the
  loop enters the error under the step's key (in place of an earlier entry of that key, else
  as a new last entry), does nothing else but note the fetch, raises nothing and goes on with
  the remaining handles, the key being among those to pop. In every iteration the events
  handed to the tracker are exactly the events of the fetches that returned, and the Step
  Errors after it are those before it with every failed fetch of the iteration entered.
\<close>

theorem fetch_failure_recorded:
  assumes "ready env result (world s) = (True, w0)"
    and "get env result w0 = (Inl e, w1)"
    and "e \<noteq> TaskRevokedError"
  shows "fetch_result env step_key result (s\<lparr>world := w0\<rparr>) =
           (Inr (), s\<lparr>world := w1, trace := trace s @ [Get step_key result (Inl e)],
                      step_errors := AList.update step_key (SerializableErrorInfo e) (step_errors s)\<rparr>)
         \<and> scan env ((step_key, result) # items) results_to_pop s =
             scan env items (results_to_pop @ [step_key])
               (s\<lparr>world := w1, trace := trace s @ [Get step_key result (Inl e)],
                  step_errors := AList.update step_key (SerializableErrorInfo e) (step_errors s)\<rparr>)
         \<and> map fst (AList.update step_key (SerializableErrorInfo e) (step_errors s)) =
             (if step_key \<in> set (map fst (step_errors s)) then map fst (step_errors s)
              else map fst (step_errors s) @ [step_key])
         \<and> map_of (AList.update step_key (SerializableErrorInfo e) (step_errors s)) step_key
             = Some (SerializableErrorInfo e)
         \<and> handled (tick_actions env cfg context t) = fetched (tick_actions env cfg context t)
         \<and> step_errors (snd (tick env cfg context t)) =
             record_failures (failures (tick_actions env cfg context t)) (step_errors t)"
proof -
  have f: "fetch_result env step_key result (s\<lparr>world := w0\<rparr>) =
           (Inr (), s\<lparr>world := w1, trace := trace s @ [Get step_key result (Inl e)],
                      step_errors := AList.update step_key (SerializableErrorInfo e) (step_errors s)\<rparr>)"
    using assms(2,3) by (cases e) (simp_all add: fetch_result_def log_def)
  have t: "handled (tick_actions env cfg context t) = fetched (tick_actions env cfg context t)
         \<and> step_errors (snd (tick env cfg context t)) =
             record_failures (failures (tick_actions env cfg context t)) (step_errors t)"
    using tick_settles [of t env cfg "context"] by (auto simp: settles_def tick_actions_def)
  from f t show ?thesis
    using assms(1) by (simp add: update_keys update_conv')
qed

theorem fetch_failure_recorded_witness:
  "scan failing_fetch_env [(''a'', 1), (''b'', 2)] [] fetching =
     (Inr [''a'', ''b''],
      fetching\<lparr>step_errors := [(''a'', SerializableErrorInfo (OtherException ''boom'')),
                                 (''b'', SerializableErrorInfo (OtherException ''bang''))],
               trace := trace fetching @ [Get ''a'' 1 (Inl (OtherException ''boom'')),
                                          Get ''b'' 2 (Inl (OtherException ''bang''))]\<rparr>)"
proof -
  have r: "ready failing_fetch_env 1 (world fetching) = (True, 2)"
    and g: "get failing_fetch_env 1 2 = (Inl (OtherException ''boom''), 2)"
    by (simp_all add: failing_fetch_env_def sim_env_def fetching_def)
  show ?thesis
    using fetch_failure_recorded [OF r g, of "''a''" "[(''b'', 2)]" "[]"]
    by (simp add: failing_fetch_env_def sim_env_def fetching_def fetch_result_def log_def)
qed

subsection \<open>A step priority that is no integer\<close>

text \<open>
  C10: for a step whose priority tag is no integer for \<^verbatim>\<open>int()\<close>, the conversion raises
  \<^verbatim>\<open>ValueError\<close> in \<^verbatim>\<open>_get_step_priority\<close> and in the sort key, where the run's tag with the
  same text gives 0. Submitting the step yields the submitting event and the engine-error event
  and raises the \<^verbatim>\<open>ValueError\<close>; an iteration that reaches the step ends with it, and so does
  the loop.
\<close>

theorem unparseable_step_priority_is_fatal:
  assumes "tag_get (tags st) DAGSTER_CELERY_STEP_PRIORITY_TAG = Some v"
    and "parse_int v = None"
  shows "step_tag_priority cfg st = Inl (ValueError v)
       \<and> get_step_priority cfg context st = Inl (ValueError v)
       \<and> priority_for_step cfg context st = Inl (ValueError v)
       \<and> (tag_get (run_tags context) DAGSTER_CELERY_RUN_PRIORITY_TAG = Some v \<longrightarrow>
            get_run_priority context = Inr 0)
       \<and> submit_step env cfg context st s2 =
           (Inl (ValueError v),
            log [Yield (submitting_event st (step_queue cfg st)),
                 Yield (submission_error_event (ValueError v))] s2)
       \<and> (poll env cfg context s = (Inr (), s1) \<and> \<not> stopping s1 \<and> step_errors s1 = []
            \<and> get_steps_to_execute env (priority_for_step cfg context) (world s1)
                = (Inr (pre @ st # rest), w1)
            \<and> submit_steps env cfg context pre (s1\<lparr>world := w1\<rparr>) = (Inr (), s2) \<longrightarrow>
          tick env cfg context s =
            (Inl (ValueError v),
             log [Yield (submitting_event st (step_queue cfg st)),
                  Yield (submission_error_event (ValueError v))] s2)
          \<and> (loop_condition env s \<longrightarrow>
               loop (Suc n) env cfg context s =
                 Some (Inl (ValueError v),
                       log [Yield (submitting_event st (step_queue cfg st)),
                            Yield (submission_error_event (ValueError v))] s2)))"
proof -
  note u = step_priority_raises [OF assms(1,2)]
  have run: "tag_get (run_tags context) DAGSTER_CELERY_RUN_PRIORITY_TAG = Some v \<longrightarrow>
      get_run_priority context = Inr 0"
    using assms(2) by (simp add: get_run_priority_def py_int_def)
  have one: "submit_step env cfg context st s2 =
      (Inl (ValueError v),
       log [Yield (submitting_event st (step_queue cfg st)),
            Yield (submission_error_event (ValueError v))] s2)"
    by (simp add: submit_step_def try_submit_def Let_def log_def u(2))
  have tick: "tick env cfg context s =
      (Inl (ValueError v),
       log [Yield (submitting_event st (step_queue cfg st)),
            Yield (submission_error_event (ValueError v))] s2)"
    if h: "poll env cfg context s = (Inr (), s1)" "\<not> stopping s1" "step_errors s1 = []"
      "get_steps_to_execute env (priority_for_step cfg context) (world s1)
         = (Inr (pre @ st # rest), w1)"
      "submit_steps env cfg context pre (s1\<lparr>world := w1\<rparr>) = (Inr (), s2)"
  proof -
    have "submit_steps env cfg context (pre @ st # rest) (s1\<lparr>world := w1\<rparr>) =
        (Inl (ValueError v),
         log [Yield (submitting_event st (step_queue cfg st)),
              Yield (submission_error_event (ValueError v))] s2)"
      by (simp add: submit_steps_append h(5) one)
    then show ?thesis
      by (simp add: tick_def submit_phase_def h(1-4))
  qed
  from u run one tick show ?thesis
    by auto
qed

theorem unparseable_step_priority_is_fatal_witness:
  "get_step_priority cfg0 no_tags (tagged_step ''a'' ''high'') = Inl (ValueError ''high'')
   \<and> loop (Suc 0) unsorting_env cfg0 no_tags (initial 0) =
       Some (Inl (ValueError ''high''),
             \<lparr>stopping = False, step_results = [], step_errors = [], world = 1,
              trace =
                [CheckForInterrupts False,
                 Yield (submitting_event (tagged_step ''a'' ''high'') ''dagster''),
                 Yield (submission_error_event (ValueError ''high''))]\<rparr>)"
proof -
  have tag: "tag_get (tags (tagged_step ''a'' ''high'')) DAGSTER_CELERY_STEP_PRIORITY_TAG
      = Some ''high''"
    by (simp add: tagged_step_def tag_get_def)
  have un: "parse_int ''high'' = None"
    by (simp add: parse_int_def strip_def is_space_def parse_unsigned_def is_digit_def)
  have p: "poll unsorting_env cfg0 no_tags (initial 0) =
      (Inr (), \<lparr>stopping = False, step_results = [], step_errors = [], world = 1,
                trace = [CheckForInterrupts False]\<rparr>)"
    by (simp add: run_defs unsorting_env_def)
  have g: "get_steps_to_execute unsorting_env (priority_for_step cfg0 no_tags) 1
      = (Inr ([] @ tagged_step ''a'' ''high'' # []), 1)"
    by (simp add: unsorting_env_def sim_env_def)
  have c: "loop_condition unsorting_env (initial 0)"
    by (simp add: loop_condition_def initial_def unsorting_env_def sim_env_def)
  have q: "step_queue cfg0 (tagged_step ''a'' ''high'') = ''dagster''"
    by (simp add: step_queue_def tagged_step_def tag_get_def cfg0_def
          DAGSTER_CELERY_QUEUE_TAG_def DAGSTER_CELERY_STEP_PRIORITY_TAG_def)
  show ?thesis
    using unparseable_step_priority_is_fatal [OF tag un, of cfg0 no_tags unsorting_env
        "\<lparr>stopping = False, step_results = [], step_errors = [], world = 1,
          trace = [CheckForInterrupts False]\<rparr>"
        "initial 0"
        "\<lparr>stopping = False, step_results = [], step_errors = [], world = 1,
          trace = [CheckForInterrupts False]\<rparr>"
        "[]" "[]" 1 0]
      p g c
    by (simp add: q log_def)
qed

end
